theory Spec2Isabelle
  imports Main "HOL-Library.AList" "HOL-Library.Sublist"
begin

section \<open>The file system seen by the context manager\<close>

text \<open>
  \<^verbatim>\<open>context-manager.ts\<close> works on directories through Node's \<^verbatim>\<open>fs.promises\<close>:
  \<^verbatim>\<open>access\<close>, \<^verbatim>\<open>mkdir\<close>, \<^verbatim>\<open>rm\<close>, \<^verbatim>\<open>readdir\<close>, \<^verbatim>\<open>copyFile\<close> and \<^verbatim>\<open>stat\<close>.
  The file system is a tree. An inner node is a directory with its entries in the order
  \<^verbatim>\<open>readdir\<close> lists them, which for Node is the byte order of the names; nothing below
  needs the names to be in that order, and the examples have them so. A leaf is a regular file with its bytes, an empty directory,
  or a symbolic link whose target does not exist (a browser profile holds such links
  while it is locked). Following such a link fails with \<^verbatim>\<open>ENOENT\<close>; it is the one
  entry of the model on which \<^verbatim>\<open>stat\<close> fails although \<^verbatim>\<open>readdir\<close> lists it.
  There are no permissions, no limits on path length and no other process: every call
  is awaited before the next one starts, so the program is sequential.
\<close>

datatype error = ENOENT | ENOTDIR | EISDIR | EEXIST | EBUSY | PageError

type_synonym bytes = string

datatype node = File bytes | Dir "(string \<times> node) list" | Link

text \<open>A path is the list of names that \<^verbatim>\<open>path.resolve\<close> yields, from the root.\<close>

type_synonym path = "string list"

definition resolve :: "path \<Rightarrow> path" where
  "resolve p = p"

definition join :: "path \<Rightarrow> string \<Rightarrow> path" where
  "join p x = p @ [x]"

text \<open>
  Names are unique within a directory; \<open>wellformed\<close> says so for a whole tree.
\<close>

fun wellformed :: "node \<Rightarrow> bool" where
  "wellformed (Dir es) = (distinct (map fst es) \<and> (\<forall>e \<in> set es. wellformed (snd e)))"
| "wellformed (File b) = True"
| "wellformed Link = True"

text \<open>A tree of regular files and directories only.\<close>

fun regular :: "node \<Rightarrow> bool" where
  "regular (Dir es) = (\<forall>e \<in> set es. regular (snd e))"
| "regular (File b) = True"
| "regular Link = False"

text \<open>
  Path resolution as \<^verbatim>\<open>lstat\<close> does it: the last name is not followed, a link on the
  way is (and fails, its target being absent).
\<close>

fun lookup :: "node \<Rightarrow> path \<Rightarrow> error + node" where
  "lookup n [] = Inr n"
| "lookup (Dir es) (x # p) =
     (case map_of es x of None \<Rightarrow> Inl ENOENT | Some c \<Rightarrow> lookup c p)"
| "lookup (File b) (x # p) = Inl ENOTDIR"
| "lookup Link (x # p) = Inl ENOENT"

text \<open>\<^verbatim>\<open>fs.access(path)\<close>: the path can be reached, links followed.\<close>

definition fs_access :: "node \<Rightarrow> path \<Rightarrow> error + unit" where
  "fs_access fs p =
     (case lookup fs p of
        Inl e \<Rightarrow> Inl e
      | Inr Link \<Rightarrow> Inl ENOENT
      | Inr _ \<Rightarrow> Inr ())"

text \<open>
  \<^verbatim>\<open>fs.mkdir(path, { recursive: true })\<close>: creates the directory and the missing
  directories above it; a directory that is already there is left as it is. On a link
  without target it fails with \<^verbatim>\<open>ENOENT\<close>, below one with \<^verbatim>\<open>ENOTDIR\<close>. A new entry
  is put at the end of the entries, its place in the listing when its name is the last
  in order.
\<close>

fun fs_mkdir :: "node \<Rightarrow> path \<Rightarrow> error + node" where
  "fs_mkdir (Dir es) [] = Inr (Dir es)"
| "fs_mkdir (File b) [] = Inl EEXIST"
| "fs_mkdir Link [] = Inl ENOENT"
| "fs_mkdir (Dir es) (x # p) =
     (case fs_mkdir (case map_of es x of None \<Rightarrow> Dir [] | Some c \<Rightarrow> c) p of
        Inl e \<Rightarrow> Inl e
      | Inr c' \<Rightarrow> Inr (Dir (AList.update x c' es)))"
| "fs_mkdir (File b) (x # p) = Inl ENOTDIR"
| "fs_mkdir Link (x # p) = Inl ENOTDIR"

text \<open>
  \<^verbatim>\<open>fs.rm(path, { recursive: true, force: true })\<close>: removes the entry with
  everything below it. \<^verbatim>\<open>force\<close> turns a missing path into a no-op, and nothing else:
  a regular file on the way is still \<^verbatim>\<open>ENOTDIR\<close>, and the root cannot be removed.
  A failing \<^verbatim>\<open>rm\<close> changes nothing.
\<close>

fun fs_rm :: "node \<Rightarrow> path \<Rightarrow> error + node" where
  "fs_rm n [] = Inl EBUSY"
| "fs_rm (Dir es) [x] = Inr (Dir (AList.delete x es))"
| "fs_rm (Dir es) (x # y # p) =
     (case map_of es x of
        None \<Rightarrow> Inr (Dir es)
      | Some c \<Rightarrow>
          (case fs_rm c (y # p) of
             Inl e \<Rightarrow> Inl e
           | Inr c' \<Rightarrow> Inr (Dir (AList.update x c' es))))"
| "fs_rm (File b) (x # p) = Inl ENOTDIR"
| "fs_rm Link (x # p) = Inr Link"

datatype Dirent = Dirent (name: string) (isDirectory: bool)

fun is_dir :: "node \<Rightarrow> bool" where
  "is_dir (Dir es) = True"
| "is_dir (File b) = False"
| "is_dir Link = False"

text \<open>\<^verbatim>\<open>fs.readdir(path, { withFileTypes: true })\<close>\<close>

definition fs_readdir :: "node \<Rightarrow> path \<Rightarrow> error + Dirent list" where
  "fs_readdir fs p =
     (case lookup fs p of
        Inl e \<Rightarrow> Inl e
      | Inr (File b) \<Rightarrow> Inl ENOTDIR
      | Inr Link \<Rightarrow> Inl ENOENT
      | Inr (Dir es) \<Rightarrow> Inr (map (\<lambda>e. Dirent (fst e) (is_dir (snd e))) es))"

text \<open>
  \<^verbatim>\<open>fs.stat(path)\<close>, of which the program reads \<^verbatim>\<open>size\<close> only. The size a file
  system reports for a directory itself is its own business; the model says 0, and on a
  well-formed tree the traversal never asks for it.
\<close>

datatype Stats = Stats (st_size: nat)

definition fs_stat :: "node \<Rightarrow> path \<Rightarrow> error + Stats" where
  "fs_stat fs p =
     (case lookup fs p of
        Inl e \<Rightarrow> Inl e
      | Inr (File b) \<Rightarrow> Inr (Stats (length b))
      | Inr (Dir es) \<Rightarrow> Inr (Stats 0)
      | Inr Link \<Rightarrow> Inl ENOENT)"

text \<open>
  Opening a path for writing, creating or truncating the file, and writing \<open>b\<close>: the
  second half of \<^verbatim>\<open>fs.copyFile\<close>.
\<close>

fun fs_write :: "node \<Rightarrow> path \<Rightarrow> bytes \<Rightarrow> error + node" where
  "fs_write (File old) [] b = Inr (File b)"
| "fs_write (Dir es) [] b = Inl EISDIR"
| "fs_write Link [] b = Inl ENOENT"
| "fs_write (Dir es) (x # p) b =
     (case map_of es x of
        None \<Rightarrow> (if p = [] then Inr (Dir (es @ [(x, File b)])) else Inl ENOENT)
      | Some c \<Rightarrow>
          (case fs_write c p b of
             Inl e \<Rightarrow> Inl e
           | Inr c' \<Rightarrow> Inr (Dir (AList.update x c' es))))"
| "fs_write (File old) (x # p) b = Inl ENOTDIR"
| "fs_write Link (x # p) b = Inl ENOENT"

text \<open>\<^verbatim>\<open>fs.copyFile(src, dest)\<close>\<close>

definition fs_copyFile :: "node \<Rightarrow> path \<Rightarrow> path \<Rightarrow> error + node" where
  "fs_copyFile fs src dest =
     (case lookup fs src of
        Inl e \<Rightarrow> Inl e
      | Inr (Dir es) \<Rightarrow> Inl EISDIR
      | Inr Link \<Rightarrow> Inl ENOENT
      | Inr (File b) \<Rightarrow> fs_write fs dest b)"

section \<open>The directory operations of \<^verbatim>\<open>PersistentContextManager\<close>\<close>

text \<open>
  An operation that throws half-way leaves the file system as it is at that moment, so
  a failure carries the state as well.
\<close>

datatype outcome = Done node | Failed error node


text \<open>
  \<^verbatim>\<open>
  private async ensureDirectory(path: string): Promise<void> {
    const resolvedPath = resolve(path);
    try { await fs.access(resolvedPath); }
    catch { await fs.mkdir(resolvedPath, { recursive: true }); }
  }\<close>
\<close>

definition ensureDirectory :: "node \<Rightarrow> path \<Rightarrow> error + node" where
  "ensureDirectory fs p =
     (let resolvedPath = resolve p in
      case fs_access fs resolvedPath of
        Inr u \<Rightarrow> Inr fs
      | Inl e \<Rightarrow> fs_mkdir fs resolvedPath)"

text \<open>
  \<^verbatim>\<open>
  private async copyDirectory(source: string, target: string): Promise<void> {
    const resolvedSource = resolve(source);
    const resolvedTarget = resolve(target);
    const entries = await fs.readdir(resolvedSource, { withFileTypes: true });
    for (const entry of entries) {
      const sourcePath = join(resolvedSource, entry.name);
      const targetPath = join(resolvedTarget, entry.name);
      if (entry.isDirectory()) {
        await this.ensureDirectory(targetPath);
        await this.copyDirectory(sourcePath, targetPath);
      } else {
        await fs.copyFile(sourcePath, targetPath);
      }
    }
  }\<close>
  The recursion reads directories that the copy itself may have written (a target
  inside the source), so it need not end: the first argument bounds the depth of the
  recursion, and \<open>None\<close> says that the bound was reached. \<open>copyEntries\<close> is the
  \<^verbatim>\<open>for\<close> loop over the entries read at the start.
\<close>

fun copyDirectory :: "nat \<Rightarrow> node \<Rightarrow> path \<Rightarrow> path \<Rightarrow> outcome option"
  and copyEntries :: "nat \<Rightarrow> node \<Rightarrow> path \<Rightarrow> path \<Rightarrow> Dirent list \<Rightarrow> outcome option" where
  "copyDirectory 0 fs source target = None"
| "copyDirectory (Suc fuel) fs source target =
     (let resolvedSource = resolve source; resolvedTarget = resolve target in
      case fs_readdir fs resolvedSource of
        Inl e \<Rightarrow> Some (Failed e fs)
      | Inr entries \<Rightarrow> copyEntries fuel fs resolvedSource resolvedTarget entries)"
| "copyEntries fuel fs resolvedSource resolvedTarget [] = Some (Done fs)"
| "copyEntries fuel fs resolvedSource resolvedTarget (entry # entries) =
     (let sourcePath = join resolvedSource (name entry);
          targetPath = join resolvedTarget (name entry) in
      if isDirectory entry then
        (case ensureDirectory fs targetPath of
           Inl e \<Rightarrow> Some (Failed e fs)
         | Inr fs1 \<Rightarrow>
             (case copyDirectory fuel fs1 sourcePath targetPath of
                None \<Rightarrow> None
              | Some (Failed e fs2) \<Rightarrow> Some (Failed e fs2)
              | Some (Done fs2) \<Rightarrow>
                  copyEntries fuel fs2 resolvedSource resolvedTarget entries))
      else
        (case fs_copyFile fs sourcePath targetPath of
           Inl e \<Rightarrow> Some (Failed e fs)
         | Inr fs1 \<Rightarrow> copyEntries fuel fs1 resolvedSource resolvedTarget entries))"

text \<open>
  \<^verbatim>\<open>
  async copyContext(sourceContextPath: string, targetContextPath: string): Promise<void> {
    try { await fs.rm(targetContextPath, { recursive: true, force: true }); }
    catch (error) { /* Ignore if directory doesn't exist */ }
    await this.ensureDirectory(targetContextPath);
    await this.copyDirectory(sourceContextPath, targetContextPath);
  }\<close>
\<close>

definition copyContext :: "nat \<Rightarrow> node \<Rightarrow> path \<Rightarrow> path \<Rightarrow> outcome option" where
  "copyContext fuel fs sourceContextPath targetContextPath =
     (let fs1 = (case fs_rm fs targetContextPath of Inl e \<Rightarrow> fs | Inr fs' \<Rightarrow> fs') in
      case ensureDirectory fs1 targetContextPath of
        Inl e \<Rightarrow> Some (Failed e fs1)
      | Inr fs2 \<Rightarrow> copyDirectory fuel fs2 sourceContextPath targetContextPath)"

text \<open>
  \<^verbatim>\<open>
  private async getDirectorySize(path: string): Promise<number> {
    let size = 0;
    try {
      const entries = await fs.readdir(path, { withFileTypes: true });
      for (const entry of entries) {
        const fullPath = join(path, entry.name);
        if (entry.isDirectory()) {
          size += await this.getDirectorySize(fullPath);
        } else {
          const stats = await fs.stat(fullPath);
          size += stats.size;
        }
      }
    } catch (error) { /* Ignore errors and return current size */ }
    return size;
  }\<close>
  \<open>sizeEntries\<close> is the \<^verbatim>\<open>for\<close> loop inside the \<^verbatim>\<open>try\<close>: its value is \<^verbatim>\<open>size\<close> when
  the block is left, at the end of the entries or through the \<^verbatim>\<open>catch\<close>. The
  traversal only reads, and each recursive call goes one level down the tree; the two
  measures below are what decreases.
\<close>

fun height :: "node \<Rightarrow> nat" where
  "height (Dir es) = Suc (foldr (\<lambda>e m. max (height (snd e)) m) es 0)"
| "height (File b) = 0"
| "height Link = 0"

definition height_at :: "node \<Rightarrow> path \<Rightarrow> nat" where
  "height_at fs p = (case lookup fs p of Inl e \<Rightarrow> 0 | Inr n \<Rightarrow> height n)"

definition height_below :: "node \<Rightarrow> path \<Rightarrow> Dirent list \<Rightarrow> nat" where
  "height_below fs p entries =
     foldr (\<lambda>e m. max (Suc (height_at fs (join p (name e)))) m) entries 0"

function getDirectorySize :: "node \<Rightarrow> path \<Rightarrow> error + nat"
  and sizeEntries :: "node \<Rightarrow> path \<Rightarrow> Dirent list \<Rightarrow> nat \<Rightarrow> nat" where
  "getDirectorySize fs path =
     (case fs_readdir fs path of
        Inl e \<Rightarrow> Inr 0
      | Inr entries \<Rightarrow> Inr (sizeEntries fs path entries 0))"
| "sizeEntries fs path [] sz = sz"
| "sizeEntries fs path (entry # entries) sz =
     (let fullPath = join path (name entry) in
      if isDirectory entry then
        (case getDirectorySize fs fullPath of
           Inl e \<Rightarrow> sz
         | Inr n \<Rightarrow> sizeEntries fs path entries (sz + n))
      else
        (case fs_stat fs fullPath of
           Inl e \<Rightarrow> sz
         | Inr stats \<Rightarrow> sizeEntries fs path entries (sz + st_size stats)))"
  by pat_completeness auto

text \<open>
  \<^verbatim>\<open>
  async getContextSize(contextPath: string): Promise<number> {
    try { return await this.getDirectorySize(resolve(contextPath)); }
    catch (error) { return 0; }
  }\<close>
\<close>

definition getContextSize :: "node \<Rightarrow> path \<Rightarrow> error + nat" where
  "getContextSize fs contextPath =
     (case getDirectorySize fs (resolve contextPath) of
        Inl e \<Rightarrow> Inr 0
      | Inr n \<Rightarrow> Inr n)"

section \<open>\<^verbatim>\<open>formatBytes\<close>\<close>

text \<open>
  \<^verbatim>\<open>
  formatBytes(bytes: number): string {
    if (bytes === 0) return '0 Bytes';
    const k = 1024;
    const sizes = ['Bytes', 'KB', 'MB', 'GB'];
    const i = Math.floor(Math.log(bytes) / Math.log(k));
    return parseFloat((bytes / Math.pow(k, i)).toFixed(2)) + ' ' + sizes[i];
  }\<close>
  The byte count is a sum of file sizes, a natural number. The index \<^verbatim>\<open>i\<close> comes from
  a quotient of two logarithms in double precision. \<open>floor_log k n\<close> is the whole part
  of the exact logarithm of \<open>n\<close> to the base \<open>k\<close>; below \<open>1024\<^sup>4\<close> the quotient is far
  enough from the next whole number for \<^verbatim>\<open>Math.floor\<close> to yield exactly that. For larger
  counts the rounding can carry the quotient up to the next whole number (at
  \<open>1024\<^sup>5 - 1\<close> the program has 5 where the exact value is 4), so \<open>formatBytes_at\<close>
  below, the last line of the function, takes the index as it was computed.
\<close>

function floor_log :: "nat \<Rightarrow> nat \<Rightarrow> nat" where
  "floor_log k n = (if k < 2 \<or> n < k then 0 else Suc (floor_log k (n div k)))"
  by pat_completeness auto
termination
  by (relation "measure snd") auto

definition sizes :: "string list" where
  "sizes = [''Bytes'', ''KB'', ''MB'', ''GB'']"

text \<open>
  \<^verbatim>\<open>sizes[i]\<close>: past the end of the array JavaScript yields \<^verbatim>\<open>undefined\<close>, and the
  concatenation with a string prints it as the word.
\<close>

definition unit_at :: "nat \<Rightarrow> string" where
  "unit_at i = (if i < length sizes then sizes ! i else ''undefined'')"

text \<open>
  \<^verbatim>\<open>(bytes / Math.pow(k, i)).toFixed(2)\<close> is the decimal numeral with two decimals that is
  nearest to the quotient, the larger one of two equally near. The division by a power
  of 1024 is exact, so that numeral is \<open>h / 100\<close> for the number \<open>h\<close> of hundredths
  below.
\<close>

definition hundredths :: "nat \<Rightarrow> nat \<Rightarrow> nat" where
  "hundredths num den = (200 * num + den) div (2 * den)"

definition digit :: "nat \<Rightarrow> char" where
  "digit d = ''0123456789'' ! d"

function show_nat :: "nat \<Rightarrow> string" where
  "show_nat n = (if n < 10 then [digit n] else show_nat (n div 10) @ [digit (n mod 10)])"
  by pat_completeness auto
termination
  by (relation "measure id") auto

definition toFixed2 :: "nat \<Rightarrow> nat \<Rightarrow> string" where
  "toFixed2 num den =
     (let h = hundredths num den in
      show_nat (h div 100) @ ''.'' @ [digit (h mod 100 div 10), digit (h mod 10)])"

text \<open>
  \<^verbatim>\<open>parseFloat(s) + ' '\<close> reads the numeral back as a number and prints the number in
  the shortest form: no zero at the end of the decimals, no point after a whole number.
\<close>

definition parseFloat_string :: "nat \<Rightarrow> nat \<Rightarrow> string" where
  "parseFloat_string num den =
     (let h = hundredths num den in
      if h mod 100 = 0 then show_nat (h div 100)
      else if h mod 10 = 0 then show_nat (h div 100) @ ''.'' @ [digit (h mod 100 div 10)]
      else toFixed2 num den)"

definition formatBytes_at :: "nat \<Rightarrow> nat \<Rightarrow> string" where
  "formatBytes_at i bytes =
     (let k = 1024 in parseFloat_string bytes (k ^ i) @ '' '' @ unit_at i)"

definition formatBytes :: "nat \<Rightarrow> string" where
  "formatBytes bytes =
     (if bytes = 0 then ''0 Bytes''
      else
        let k = 1024;
            i = floor_log k bytes
        in formatBytes_at i bytes)"

section \<open>The browser held by the manager\<close>

text \<open>
  The automation driver is outside the program. Of it the model keeps the processes it
  has started and not yet closed, each under the handle \<^verbatim>\<open>chromium.launch\<close> or
  \<^verbatim>\<open>chromium.launchPersistentContext\<close> returned, and the manager's field
  \<^verbatim>\<open>this.browser\<close>. Launching and closing succeed; what the browser writes into a
  profile directory is not followed.
\<close>

record state =
  browser :: "nat option"
  running :: "nat set"
  open_contexts :: "nat set"
  next_handle :: nat
  disk :: node

definition launch :: "state \<Rightarrow> nat \<times> state" where
  "launch s =
     (next_handle s,
      s\<lparr>running := insert (next_handle s) (running s), next_handle := Suc (next_handle s)\<rparr>)"

definition browser_close :: "nat \<Rightarrow> state \<Rightarrow> state" where
  "browser_close b s = s\<lparr>running := running s - {b}\<rparr>"

definition launchPersistentContext :: "state \<Rightarrow> nat \<times> state" where
  "launchPersistentContext s =
     (next_handle s,
      s\<lparr>open_contexts := insert (next_handle s) (open_contexts s),
        next_handle := Suc (next_handle s)\<rparr>)"

definition context_close :: "nat \<Rightarrow> state \<Rightarrow> state" where
  "context_close c s = s\<lparr>open_contexts := open_contexts s - {c}\<rparr>"

text \<open>
  \<^verbatim>\<open>
  private browser: Browser | null = null;
  async initialize(): Promise<void> {
    this.browser = await chromium.launch({ headless: false });
  }
  async cleanup(): Promise<void> {
    if (this.browser) { await this.browser.close(); this.browser = null; }
  }\<close>
\<close>

definition new_manager :: "node \<Rightarrow> state" where
  "new_manager d =
     \<lparr>browser = None, running = {}, open_contexts = {}, next_handle = 0, disk = d\<rparr>"

definition initialize :: "state \<Rightarrow> state" where
  "initialize s = (let (b, s1) = launch s in s1\<lparr>browser := Some b\<rparr>)"

definition cleanup :: "state \<Rightarrow> state" where
  "cleanup s =
     (case browser s of
        Some b \<Rightarrow> (browser_close b s)\<lparr>browser := None\<rparr>
      | None \<Rightarrow> s)"

text \<open>
  What the page does inside the \<^verbatim>\<open>try\<close> of \<^verbatim>\<open>createBaseContext\<close> is the driver's
  answer to four calls, each one succeeding or throwing. A throw of
  \<^verbatim>\<open>page.waitForResponse\<close> is caught on the spot; the others leave the block.
\<close>

record page_answers =
  newPage_throws :: "error option"
  goto_throws :: "error option"
  waitForTimeout_throws :: "error option"
  waitForResponse_throws :: "error option"

definition navigate_and_wait :: "page_answers \<Rightarrow> error option" where
  "navigate_and_wait a =
     (case newPage_throws a of
        Some e \<Rightarrow> Some e
      | None \<Rightarrow>
          (case goto_throws a of
             Some e \<Rightarrow> Some e
           | None \<Rightarrow>
               (case waitForTimeout_throws a of
                  Some e \<Rightarrow> Some e
                | None \<Rightarrow>
                    (case waitForResponse_throws a of
                       Some e \<Rightarrow> None
                     | None \<Rightarrow> None))))"

text \<open>
  \<^verbatim>\<open>
  async createBaseContext(contextPath: string, url: string): Promise<void> {
    await this.ensureDirectory(contextPath);
    if (this.browser) { await this.browser.close(); }
    const context = await chromium.launchPersistentContext(contextPath, { headless: false });
    try {
      const page = await context.newPage();
      await page.goto(url, { waitUntil: 'networkidle', timeout: 60000 });
      await page.waitForTimeout(5000);
      try { await page.waitForResponse(..., { timeout: 30000 }); } catch (error) { }
    } finally {
      await context.close();
      this.browser = await chromium.launch({ headless: false });
    }
  }\<close>
  The result is the error the call throws, if any, and the state it leaves.
\<close>

definition createBaseContext :: "page_answers \<Rightarrow> state \<Rightarrow> path \<Rightarrow> error option \<times> state" where
  "createBaseContext a s contextPath =
     (case ensureDirectory (disk s) contextPath of
        Inl e \<Rightarrow> (Some e, s)
      | Inr d \<Rightarrow>
          (let s1 = s\<lparr>disk := d\<rparr>;
               s2 = (case browser s1 of Some b \<Rightarrow> browser_close b s1 | None \<Rightarrow> s1);
               (context, s3) = launchPersistentContext s2;
               thrown = navigate_and_wait a;
               s4 = context_close context s3;
               (b', s5) = launch s4
           in (thrown, s5\<lparr>browser := Some b'\<rparr>)))"

section \<open>What the operations are compared with\<close>

text \<open>\<open>put fs p m\<close> is \<open>fs\<close> with the tree at the existing path \<open>p\<close> replaced by \<open>m\<close>.\<close>

fun put :: "node \<Rightarrow> path \<Rightarrow> node \<Rightarrow> node" where
  "put n [] m = m"
| "put (Dir es) (x # p) m =
     (case map_of es x of
        None \<Rightarrow> Dir es
      | Some c \<Rightarrow> Dir (AList.update x (put c p m) es))"
| "put (File b) (x # p) m = File b"
| "put Link (x # p) m = Link"

text \<open>
  A directory can be put at the path, after whatever is there has been removed: the
  path is not the root, and every name above its last one that exists is a directory.
\<close>

fun creatable :: "node \<Rightarrow> path \<Rightarrow> bool" where
  "creatable n [] = False"
| "creatable (Dir es) [x] = True"
| "creatable (Dir es) (x # y # p) =
     (case map_of es x of None \<Rightarrow> True | Some c \<Rightarrow> creatable c (y # p))"
| "creatable (File b) (x # p) = False"
| "creatable Link (x # p) = False"

text \<open>The bytes of all regular files of a tree.\<close>

fun total_bytes :: "node \<Rightarrow> nat" where
  "total_bytes (File b) = length b"
| "total_bytes (Dir es) = sum_list (map (\<lambda>e. total_bytes (snd e)) es)"
| "total_bytes Link = 0"

text \<open>
  The bytes counted up to the failing point: in a directory the entries are added up
  in order until one of them cannot be measured; a subdirectory adds what was counted
  in it. A path that is no directory counts 0.
\<close>

fun partial_entries :: "(string \<times> node) list \<Rightarrow> nat" where
  "partial_entries [] = 0"
| "partial_entries ((x, File b) # es) = length b + partial_entries es"
| "partial_entries ((x, Dir cs) # es) = partial_entries cs + partial_entries es"
| "partial_entries ((x, Link) # es) = 0"

fun partial_sum :: "node \<Rightarrow> nat" where
  "partial_sum (Dir es) = partial_entries es"
| "partial_sum (File b) = 0"
| "partial_sum Link = 0"

section \<open>Two file systems to try the operations on\<close>

text \<open>
  A base context of two files, 10 and 20 bytes long, beside a session directory with
  stale content; the same after the base has been copied over the session, and after
  the session has been copied onto itself; and a
  profile that holds the lock link of a running browser between two files. The names of
  each directory are in byte order.
\<close>

definition base_disk :: node where
  "base_disk =
     Dir [(''contexts'',
           Dir [(''base-context'',
                 Dir [(''a.txt'', File ''0123456789''),
                      (''sub'', Dir [(''b.txt'', File ''01234567890123456789'')])]),
                (''session-1'', Dir [(''stale.txt'', File ''old'')])])]"

definition copied_disk :: node where
  "copied_disk =
     Dir [(''contexts'',
           Dir [(''base-context'',
                 Dir [(''a.txt'', File ''0123456789''),
                      (''sub'', Dir [(''b.txt'', File ''01234567890123456789'')])]),
                (''session-1'',
                 Dir [(''a.txt'', File ''0123456789''),
                      (''sub'', Dir [(''b.txt'', File ''01234567890123456789'')])])])]"

definition emptied_disk :: node where
  "emptied_disk =
     Dir [(''contexts'',
           Dir [(''base-context'',
                 Dir [(''a.txt'', File ''0123456789''),
                      (''sub'', Dir [(''b.txt'', File ''01234567890123456789'')])]),
                (''session-1'', Dir [])])]"

definition locked_profile :: node where
  "locked_profile =
     Dir [(''profile'',
           Dir [(''A.txt'', File ''0123456789''),
                (''SingletonLock'', Link),
                (''b.txt'', File ''01234567890123456789'')])]"

section \<open>Paths and trees\<close>

lemma lookup_append:
  "lookup n (p @ q) = (case lookup n p of Inl e \<Rightarrow> Inl e | Inr c \<Rightarrow> lookup c q)"
  by (induction n p rule: lookup.induct) (auto split: option.splits)

lemma height_child: "map_of es x = Some c \<Longrightarrow> Suc (height c) \<le> height (Dir es)"
  by (induction es) (auto split: if_splits)

lemma height_below_le:
  assumes "lookup fs p = Inr (Dir es)" and "\<forall>e \<in> set ents. name e \<in> fst ` set es"
  shows "height_below fs p ents \<le> height (Dir es)"
  using assms(2)
proof (induction ents)
  case Nil
  then show ?case by (simp add: height_below_def)
next
  case (Cons e ents)
  then obtain c where "map_of es (name e) = Some c"
    by (metis list.set_intros(1) map_of_eq_None_iff not_Some_eq)
  then have "Suc (height_at fs (p @ [name e])) \<le> height (Dir es)"
    using assms(1) height_child [of es "name e" c]
    by (simp add: height_at_def lookup_append)
  then show ?case using Cons by (simp add: height_below_def join_def)
qed

text \<open>The size traversal ends on every tree.\<close>

termination getDirectorySize
proof (relation "measures
    [\<lambda>a. case a of Inl (fs, p) \<Rightarrow> height_at fs p | Inr (fs, p, es, s) \<Rightarrow> height_below fs p es,
     \<lambda>a. case a of Inl c \<Rightarrow> 1 | Inr c \<Rightarrow> 0,
     \<lambda>a. case a of Inl c \<Rightarrow> 0 | Inr (fs, p, es, s) \<Rightarrow> length es]", goal_cases)
  case 1
  then show ?case by simp
next
  case (2 fs path entries)
  then obtain es where l: "lookup fs path = Inr (Dir es)"
    and e: "entries = map (\<lambda>e. Dirent (fst e) (is_dir (snd e))) es"
    by (auto simp: fs_readdir_def split: sum.splits node.splits)
  have "height_below fs path entries \<le> height_at fs path"
    using height_below_le [OF l, of entries] l e by (auto simp: height_at_def)
  then show ?case by auto
next
  case (3 fs path entry entries sz x)
  then show ?case by (auto simp: height_below_def)
next
  case (4 fs path entry entries sz x y)
  then show ?case by (auto simp: height_below_def)
next
  case (5 fs path entry entries sz x y)
  then show ?case by (auto simp: height_below_def)
qed

section \<open>Replacing a subtree\<close>

lemma lookup_put_same: "lookup n p = Inr c \<Longrightarrow> lookup (put n p m) p = Inr m"
  by (induction n p arbitrary: c rule: lookup.induct) (auto split: option.splits simp: update_conv')

lemma put_put: "lookup n p = Inr c \<Longrightarrow> put (put n p m1) p m2 = put n p m2"
  by (induction n p arbitrary: c rule: lookup.induct) (auto split: option.splits simp: update_conv')

lemma put_lookup_id: "lookup n p = Inr c \<Longrightarrow> put n p c = n"
  by (induction n p arbitrary: c rule: lookup.induct) (auto split: option.splits simp: update_triv)

lemma put_append:
  "lookup n p = Inr c \<Longrightarrow> put n (p @ q) m = put n p (put c q m)"
  by (induction n p arbitrary: c rule: lookup.induct) (auto split: option.splits)

lemma lookup_put_indep:
  "\<not> prefix p q \<Longrightarrow> \<not> prefix q p \<Longrightarrow> lookup (put n p m) q = lookup n q"
proof (induction n p arbitrary: q rule: lookup.induct)
  case (2 es x p)
  then show ?case
    by (cases q) (auto split: option.splits simp: update_conv')
qed (auto split: option.splits)

lemma mkdir_at:
  "lookup fs p = Inr c \<Longrightarrow>
   fs_mkdir fs (p @ q) = (case fs_mkdir c q of Inl e \<Rightarrow> Inl e | Inr c' \<Rightarrow> Inr (put fs p c'))"
  by (induction fs p arbitrary: c rule: lookup.induct) (auto split: option.splits sum.splits)

lemma write_at:
  "lookup fs p = Inr c \<Longrightarrow>
   fs_write fs (p @ q) b = (case fs_write c q b of Inl e \<Rightarrow> Inl e | Inr c' \<Rightarrow> Inr (put fs p c'))"
  by (induction fs p arbitrary: c rule: lookup.induct) (auto split: option.splits sum.splits)

lemma rm_at:
  "lookup fs p = Inr c \<Longrightarrow> q \<noteq> [] \<Longrightarrow>
   fs_rm fs (p @ q) = (case fs_rm c q of Inl e \<Rightarrow> Inl e | Inr c' \<Rightarrow> Inr (put fs p c'))"
proof (induction fs p arbitrary: c rule: lookup.induct)
  case (2 es x p)
  then show ?case
    by (cases "p @ q") (auto split: option.splits sum.splits)
qed (auto split: option.splits sum.splits)

section \<open>Copying between directories that lie apart\<close>

lemma update_absent: "map_of es x = None \<Longrightarrow> AList.update x v es = es @ [(x, v)]"
  by (induction es) (auto split: if_splits)

lemma update_last_entry:
  "map_of es x = None \<Longrightarrow> AList.update x v (es @ [(x, w)]) = es @ [(x, v)]"
  by (induction es) (auto split: if_splits)

lemma map_of_append_absent:
  "map_of es x = None \<Longrightarrow> map_of (es @ fs) x = map_of fs x"
  by (simp add: map_add_def split: option.splits)

lemma prefix_snoc_indep1: "\<not> prefix s t \<Longrightarrow> \<not> prefix t s \<Longrightarrow> \<not> prefix t (s @ [x])"
  by (auto simp: prefix_def append_eq_append_conv2 append_eq_Cons_conv Cons_eq_append_conv) 

lemma prefix_snoc_indep2: "\<not> prefix s t \<Longrightarrow> \<not> prefix (s @ [x]) t"
  by (auto simp: prefix_def)

lemma prefix_snoc_indep3: "\<not> prefix s t \<Longrightarrow> \<not> prefix t s \<Longrightarrow> \<not> prefix (s @ [x]) (t @ [y])"
  by (auto dest: append_prefixD)

lemma copyEntries_indep:
  assumes P: "\<And>fs s t cs fs'. lookup fs s = Inr (Dir cs) \<Longrightarrow> wellformed (Dir cs) \<Longrightarrow>
        lookup fs t = Inr (Dir []) \<Longrightarrow> \<not> prefix s t \<Longrightarrow> \<not> prefix t s \<Longrightarrow>
        copyDirectory k fs s t = Some (Done fs') \<Longrightarrow> fs' = put fs t (Dir cs)"
  shows "lookup fs0 s = Inr (Dir (es1 @ es2)) \<Longrightarrow> wellformed (Dir (es1 @ es2)) \<Longrightarrow>
        lookup fs0 t = Inr d \<Longrightarrow> \<not> prefix s t \<Longrightarrow> \<not> prefix t s \<Longrightarrow>
        copyEntries k (put fs0 t (Dir es1)) s t (map (\<lambda>e. Dirent (fst e) (is_dir (snd e))) es2) = Some (Done fs') \<Longrightarrow>
        fs' = put fs0 t (Dir (es1 @ es2))"
proof (induction es2 arbitrary: es1)
  case Nil
  then show ?case by simp
next
  case (Cons e es2)
  obtain x c where e: "e = (x, c)" by (cases e)
  let ?fsi = "put fs0 t (Dir es1)"
  from Cons.prems(2) e have dist: "map_of es1 x = None" and wfc: "wellformed c"
    by (auto simp: map_of_eq_None_iff)
  have f1: "lookup ?fsi t = Inr (Dir es1)"
    using Cons.prems(3) by (rule lookup_put_same)
  have f3: "lookup fs0 (s @ [x]) = Inr c"
    using Cons.prems(1) dist e by (simp add: lookup_append map_add_def)
  have ind1: "\<not> prefix t (s @ [x])" and ind2: "\<not> prefix (s @ [x]) t"
    and ind3: "\<not> prefix (s @ [x]) (t @ [x])" and ind4: "\<not> prefix (t @ [x]) (s @ [x])"
    using Cons.prems(4,5) prefix_snoc_indep1 [of s t x] prefix_snoc_indep2 [of s t x]
      prefix_snoc_indep3 [of s t x x] prefix_snoc_indep3 [of t s x x] by blast+
  have f4: "lookup ?fsi (s @ [x]) = Inr c"
    using f3 ind1 ind2 by (simp add: lookup_put_indep)
  have f5: "lookup ?fsi (t @ [x]) = Inl ENOENT"
    using f1 dist by (simp add: lookup_append)
  have step: "\<exists>fs1. copyEntries k (put fs0 t (Dir (es1 @ [(x, c)]))) s t
        (map (\<lambda>e. Dirent (fst e) (is_dir (snd e))) es2) = Some (Done fs')"
  proof (cases c)
    case (File b)
    have w: "fs_copyFile ?fsi (s @ [x]) (t @ [x]) = Inr (put fs0 t (Dir (es1 @ [(x, File b)])))"
      using f4 f1 dist File Cons.prems(3)
      by (simp add: fs_copyFile_def write_at put_put)
    show ?thesis
      using Cons.prems(6) e File w by (simp add: join_def)
  next
    case (Dir cs)
    let ?fs1 = "put fs0 t (Dir (es1 @ [(x, Dir [])]))"
    have m: "ensureDirectory ?fsi (t @ [x]) = Inr ?fs1"
      using f5 f1 dist Cons.prems(3)
      by (simp add: ensureDirectory_def resolve_def fs_access_def mkdir_at update_absent put_put)
    have l1: "lookup ?fs1 t = Inr (Dir (es1 @ [(x, Dir [])]))"
      using Cons.prems(3) by (rule lookup_put_same)
    have l2: "lookup ?fs1 (t @ [x]) = Inr (Dir [])"
      using l1 dist by (simp add: lookup_append map_add_def)
    have l3: "lookup ?fs1 (s @ [x]) = Inr (Dir cs)"
      using f3 ind1 ind2 Dir by (simp add: lookup_put_indep)
    from Cons.prems(6) e Dir m obtain fs2 where
      c2: "copyDirectory k ?fs1 (s @ [x]) (t @ [x]) = Some (Done fs2)"
      and rest: "copyEntries k fs2 s t (map (\<lambda>e. Dirent (fst e) (is_dir (snd e))) es2) = Some (Done fs')"
      by (auto simp: join_def split: option.splits outcome.splits)
    have "fs2 = put ?fs1 (t @ [x]) (Dir cs)"
      using P [OF l3 _ l2 ind3 ind4 c2] wfc Dir by simp
    also have "\<dots> = put ?fs1 t (put (Dir (es1 @ [(x, Dir [])])) [x] (Dir cs))"
      using l1 by (rule put_append)
    also have "\<dots> = put fs0 t (Dir (es1 @ [(x, c)]))"
      using dist Dir Cons.prems(3) by (simp add: map_add_def update_last_entry put_put)
    finally show ?thesis using rest by simp
  next
    case Link
    then show ?thesis
      using Cons.prems(6) e f4 by (simp add: join_def fs_copyFile_def)
  qed
  then have "copyEntries k (put fs0 t (Dir (es1 @ [(x, c)]))) s t
        (map (\<lambda>e. Dirent (fst e) (is_dir (snd e))) es2) = Some (Done fs')" by simp
  from Cons.IH [of "es1 @ [(x, c)]", OF _ _ Cons.prems(3,4,5)] this Cons.prems(1,2) e
  show ?case by simp
qed

lemma copyDirectory_indep:
  "lookup fs s = Inr (Dir cs) \<Longrightarrow> wellformed (Dir cs) \<Longrightarrow>
        lookup fs t = Inr (Dir []) \<Longrightarrow> \<not> prefix s t \<Longrightarrow> \<not> prefix t s \<Longrightarrow>
        copyDirectory k fs s t = Some (Done fs') \<Longrightarrow> fs' = put fs t (Dir cs)"
proof (induction k arbitrary: fs s t cs fs')
  case 0
  then show ?case by simp
next
  case (Suc k)
  have "copyEntries k (put fs t (Dir [])) s t (map (\<lambda>e. Dirent (fst e) (is_dir (snd e))) cs) = Some (Done fs')"
    using Suc.prems by (simp add: resolve_def fs_readdir_def put_lookup_id)
  from copyEntries_indep [of k fs s "[]" cs t _ fs', OF Suc.IH _ _ Suc.prems(3,4,5) this] Suc.prems(1,2)
  show ?case by simp
qed

section \<open>Removing and creating the target\<close>

lemma lookup_prefix_exists: "lookup fs (p @ q) = Inr c \<Longrightarrow> \<exists>d. lookup fs p = Inr d"
  by (auto simp: lookup_append split: sum.splits)

lemma wellformed_lookup: "wellformed fs \<Longrightarrow> lookup fs p = Inr n \<Longrightarrow> wellformed n"
proof (induction fs p rule: lookup.induct)
  case (2 es x p)
  then show ?case
    by (auto split: option.splits dest!: map_of_SomeD)
qed auto

lemma rm_absent: "fs_rm fs t = Inr fs' \<Longrightarrow> lookup fs' t = Inl ENOENT"
  by (induction fs t arbitrary: fs' rule: fs_rm.induct)
     (auto split: option.splits sum.splits simp: delete_conv' update_conv')

lemma rm_fails: "fs_rm fs t = Inl e \<Longrightarrow> t \<noteq> [] \<Longrightarrow> lookup fs t = Inl ENOTDIR"
  by (induction fs t rule: fs_rm.induct) (auto split: option.splits sum.splits)

lemma mkdir_ENOTDIR: "lookup fs t = Inl ENOTDIR \<Longrightarrow> fs_mkdir fs t = Inl ENOTDIR"
  by (induction fs t rule: lookup.induct) (auto split: option.splits sum.splits)

lemma mkdir_result:
  "fs_mkdir fs t = Inr fs' \<Longrightarrow>
   \<exists>es. lookup fs' t = Inr (Dir es) \<and> (lookup fs t = Inl ENOENT \<longrightarrow> es = [])"
proof (induction fs t arbitrary: fs' rule: fs_mkdir.induct)
  case (4 es x p)
  then show ?case
    by (cases p) (auto split: option.splits sum.splits simp: update_conv')
qed auto

lemma rm_frame:
  "fs_rm fs t = Inr fs' \<Longrightarrow> \<not> prefix t q \<Longrightarrow> \<not> prefix q t \<Longrightarrow> lookup fs' q = lookup fs q"
proof (induction fs t arbitrary: fs' q rule: fs_rm.induct)
  case (2 es x)
  then show ?case by (cases q) (auto simp: delete_conv')
next
  case (3 es x y p)
  then show ?case by (cases q) (auto split: option.splits sum.splits simp: update_conv')
qed auto

lemma lookup_empty_dir: "lookup (Dir []) l = (if l = [] then Inr (Dir []) else Inl ENOENT)"
  by (cases l) auto

lemma mkdir_frame:
  "fs_mkdir fs t = Inr fs' \<Longrightarrow> \<not> prefix t q \<Longrightarrow> \<not> prefix q t \<Longrightarrow> lookup fs' q = lookup fs q"
proof (induction fs t arbitrary: fs' q rule: fs_mkdir.induct)
  case (4 es x p)
  then show ?case
    by (cases q) (auto split: option.splits sum.splits simp: update_conv' lookup_empty_dir)
qed auto

section \<open>A target inside the source\<close>

lemma ensureDirectory_exists: "ensureDirectory fs p = Inr fs1 \<Longrightarrow> \<exists>c. lookup fs1 p = Inr c"
  using mkdir_result [of fs p fs1]
  by (auto simp: ensureDirectory_def resolve_def fs_access_def split: sum.splits node.splits)

lemma copyFile_below: "fs_copyFile fs p (p @ x # r) \<noteq> Inr fs'"
  by (auto simp: fs_copyFile_def write_at split: sum.splits node.splits)

lemma copyEntries_into_itself:
  assumes IH: "\<And>fs s x q c fs'. lookup fs (s @ [x]) = Inr c \<Longrightarrow>
      copyDirectory k fs s (s @ x # q) \<noteq> Some (Done fs')"
  shows "\<exists>e \<in> set ents. name e = x \<Longrightarrow> copyEntries k fs s (s @ x # q) ents \<noteq> Some (Done fs')"
proof (induction ents arbitrary: fs)
  case Nil
  then show ?case by simp
next
  case (Cons e ents)
  obtain y q' where yq: "q @ [x] = y # q'" by (cases q) auto
  then have tx: "(s @ x # q) @ [x] = (s @ [x]) @ y # q'" by simp
  show ?case
  proof (cases "name e = x")
    case True
    show ?thesis
    proof (cases "isDirectory e")
      case dir: True
      show ?thesis
      proof (cases "ensureDirectory fs ((s @ x # q) @ [x])")
        case (Inl err)
        then show ?thesis using True dir by (simp add: join_def)
      next
        case (Inr fs1)
        from ensureDirectory_exists [OF Inr] obtain c where "lookup fs1 ((s @ [x]) @ [y] @ q') = Inr c"
          using yq by auto
        then obtain d where "lookup fs1 ((s @ [x]) @ [y]) = Inr d"
          using lookup_prefix_exists [of fs1 "(s @ [x]) @ [y]" q'] by auto
        from IH [OF this, of q'] have "\<And>fs2. copyDirectory k fs1 (s @ [x]) ((s @ x # q) @ [x]) \<noteq> Some (Done fs2)"
          using yq by simp
        then show ?thesis using True dir Inr
          by (auto simp: join_def split: option.splits outcome.splits)
      qed
    next
      case False
      have "\<And>f. fs_copyFile fs (s @ [x]) ((s @ x # q) @ [x]) \<noteq> Inr f"
        unfolding tx by (rule copyFile_below)
      then show ?thesis using True False
        by (auto simp: join_def split: sum.splits)
    qed
  next
    case False
    with Cons.prems have "\<exists>e \<in> set ents. name e = x" by auto
    from Cons.IH [OF this] show ?thesis
      by (auto simp: Let_def split: sum.splits option.splits outcome.splits)
  qed
qed

lemma copyDirectory_into_itself:
  "lookup fs (s @ [x]) = Inr c \<Longrightarrow> copyDirectory k fs s (s @ x # q) \<noteq> Some (Done fs')"
proof (induction k arbitrary: fs s x q c fs')
  case 0
  then show ?case by simp
next
  case (Suc k)
  from Suc.prems obtain n where n: "lookup fs s = Inr n" and nx: "lookup n [x] = Inr c"
    by (auto simp: lookup_append split: sum.splits)
  from nx obtain es where "n = Dir es" and m: "map_of es x = Some c"
    by (cases n) (auto split: option.splits)
  with n have l: "lookup fs s = Inr (Dir es)" by simp
  from m have "\<exists>e \<in> set (map (\<lambda>e. Dirent (fst e) (is_dir (snd e))) es). name e = x"
    by (auto dest!: map_of_SomeD intro!: bexI [of _ "(x, c)"])
  from copyEntries_into_itself [of k, OF Suc.IH this] l
  show ?case by (simp add: resolve_def fs_readdir_def)
qed

section \<open>What a successful \<^verbatim>\<open>copyContext\<close> leaves\<close>

lemma copyContext_prepared:
  assumes "tgt \<noteq> []" and "copyContext k fs src tgt = Some (Done fs')"
  obtains fsR fsA where "fs_rm fs tgt = Inr fsR" and "lookup fsR tgt = Inl ENOENT"
    and "fs_mkdir fsR tgt = Inr fsA" and "lookup fsA tgt = Inr (Dir [])"
    and "copyDirectory k fsA src tgt = Some (Done fs')"
proof (cases "fs_rm fs tgt")
  case (Inl e)
  from rm_fails [OF Inl assms(1)] have "ensureDirectory fs tgt = Inl ENOTDIR"
    by (simp add: ensureDirectory_def resolve_def fs_access_def mkdir_ENOTDIR)
  with Inl assms(2) show ?thesis by (simp add: copyContext_def)
next
  case (Inr fsR)
  from rm_absent [OF Inr] have a: "lookup fsR tgt = Inl ENOENT" .
  then have e: "ensureDirectory fsR tgt = fs_mkdir fsR tgt"
    by (simp add: ensureDirectory_def resolve_def fs_access_def)
  from Inr assms(2) e obtain fsA where m: "fs_mkdir fsR tgt = Inr fsA"
    and c: "copyDirectory k fsA src tgt = Some (Done fs')"
    by (auto simp: copyContext_def split: sum.splits)
  from mkdir_result [OF m] a have "lookup fsA tgt = Inr (Dir [])" by auto
  with Inr a m c that show ?thesis by blast
qed

lemma copyContext_Done_shape:
  assumes "wellformed fs" and "tgt \<noteq> []" and "copyContext k fs src tgt = Some (Done fs')"
  obtains fsR fsA cs where "fs_rm fs tgt = Inr fsR" and "lookup fsR tgt = Inl ENOENT"
    and "fs_mkdir fsR tgt = Inr fsA" and "copyDirectory k fsA src tgt = Some (Done fs')"
    and "fs' = put fsA tgt (Dir cs)" and "lookup fs' src = Inr (Dir cs)"
    and "lookup fs' tgt = Inr (Dir cs)" and "wellformed (Dir cs)"
    and "src = tgt \<and> cs = [] \<or>
         \<not> prefix src tgt \<and> \<not> prefix tgt src \<and> lookup fs src = Inr (Dir cs)"
proof -
  from copyContext_prepared [OF assms(2,3)] obtain fsR fsA where
    r: "fs_rm fs tgt = Inr fsR" and a: "lookup fsR tgt = Inl ENOENT"
    and m: "fs_mkdir fsR tgt = Inr fsA" and d: "lookup fsA tgt = Inr (Dir [])"
    and c: "copyDirectory k fsA src tgt = Some (Done fs')" by blast
  obtain k' where k: "k = Suc k'" using c by (cases k) auto
  consider (same) "src = tgt" | (below) y q where "src = tgt @ y # q"
    | (above) x q where "tgt = src @ x # q" | (apart) "\<not> prefix src tgt" "\<not> prefix tgt src"
    by (metis prefix_def neq_Nil_conv append_Nil2)
  then show ?thesis
  proof cases
    case same
    with c d k have "fs' = fsA" by (simp add: resolve_def fs_readdir_def)
    with d same have "fs' = put fsA tgt (Dir [])" "lookup fs' src = Inr (Dir [])"
      "lookup fs' tgt = Inr (Dir [])"
      by (simp_all add: put_lookup_id)
    moreover have "wellformed (Dir [])" by simp
    ultimately show ?thesis using r a m c same that by blast
  next
    case below
    with d have "lookup fsA src = Inl ENOENT" by (simp add: lookup_append)
    with c k show ?thesis by (simp add: resolve_def fs_readdir_def)
  next
    case above
    with d have "lookup fsA ((src @ [x]) @ q) = Inr (Dir [])" by simp
    from lookup_prefix_exists [OF this] obtain e where "lookup fsA (src @ [x]) = Inr e" ..
    from copyDirectory_into_itself [OF this] c above show ?thesis by blast
  next
    case apart
    have f: "lookup fsA src = lookup fs src"
      using mkdir_frame [OF m, of src] rm_frame [OF r, of src] apart by simp
    from c k obtain cs where cs: "lookup fsA src = Inr (Dir cs)"
      by (auto simp: resolve_def fs_readdir_def split: sum.splits node.splits)
    from f cs have "lookup fs src = Inr (Dir cs)" by simp
    from wellformed_lookup [OF assms(1) this] have w: "wellformed (Dir cs)" .
    from copyDirectory_indep [OF cs w d apart c] have p: "fs' = put fsA tgt (Dir cs)" .
    then have "lookup fs' src = Inr (Dir cs)" "lookup fs' tgt = Inr (Dir cs)"
      using cs d apart by (simp_all add: lookup_put_indep lookup_put_same)
    with r a m c p f cs w apart that show ?thesis by auto
  qed
qed


lemma delete_update_same: "AList.delete x (AList.update x v es) = AList.delete x es"
  by (induction es) auto




section \<open>Everything \<^verbatim>\<open>copyDirectory\<close> writes is under the target\<close>

lemma put_again: "lookup fs t = Inr d \<Longrightarrow> fs1 = put fs t n1 \<Longrightarrow> put fs1 t n2 = put fs t n2"
  by (simp add: put_put)






lemma mkdir_empty: "\<exists>c. fs_mkdir (Dir []) p = Inr c"
  by (induction p) (auto simp: lookup_empty_dir)

lemma creatable_prepared:
  "creatable fs t \<Longrightarrow> \<exists>fsR fsA. fs_rm fs t = Inr fsR \<and> fs_mkdir fsR t = Inr fsA"
proof (induction fs t rule: creatable.induct)
  case (2 es x)
  then show ?case by (simp add: delete_conv')
next
  case (3 es x y p)
  show ?case
  proof (cases "map_of es x")
    case None
    with mkdir_empty [of "y # p"] show ?thesis by auto
  next
    case (Some c)
    with 3 obtain fsR fsA where "fs_rm c (y # p) = Inr fsR" "fs_mkdir fsR (y # p) = Inr fsA"
      by auto
    with Some show ?thesis by (auto simp: update_conv')
  qed
qed auto

lemma creatable_not_root: "creatable fs t \<Longrightarrow> t \<noteq> []"
  by auto

section \<open>What the size traversal counts\<close>

lemma sizeEntries_partial:
  assumes IH: "\<And>e fs p. e \<in> set es \<Longrightarrow> lookup fs p = Inr (snd e) \<Longrightarrow>
      getDirectorySize fs p = Inr (partial_sum (snd e))"
    and l: "lookup fs p = Inr (Dir es)" and d: "distinct (map fst es)"
  shows "es = es1 @ es2 \<Longrightarrow>
    sizeEntries fs p (map (\<lambda>e. Dirent (fst e) (is_dir (snd e))) es2) sz = sz + partial_entries es2"
proof (induction es2 arbitrary: es1 sz)
  case Nil
  then show ?case by simp
next
  case (Cons e es2)
  obtain x c where e: "e = (x, c)" by (cases e)
  from Cons.prems d e have "map_of es1 x = None"
    by (auto simp: map_of_eq_None_iff)
  with Cons.prems e l have lc: "lookup fs (p @ [x]) = Inr c"
    by (simp add: lookup_append map_add_def)
  have next_step: "\<And>sz'. sizeEntries fs p (map (\<lambda>e. Dirent (fst e) (is_dir (snd e))) es2) sz'
      = sz' + partial_entries es2"
    using Cons.IH [of "es1 @ [e]"] Cons.prems by simp
  show ?case
  proof (cases c)
    case (File b)
    with e lc next_step show ?thesis by (simp add: join_def fs_stat_def)
  next
    case (Dir cs)
    have "getDirectorySize fs (p @ [x]) = Inr (partial_sum c)"
      using IH [of e fs "p @ [x]"] Cons.prems e lc by simp
    with e Dir next_step show ?thesis by (simp add: join_def)
  next
    case Link
    with e lc show ?thesis by (simp add: join_def fs_stat_def)
  qed
qed

lemma getDirectorySize_partial:
  "wellformed n \<Longrightarrow> lookup fs p = Inr n \<Longrightarrow> getDirectorySize fs p = Inr (partial_sum n)"
proof (induction n arbitrary: fs p rule: wellformed.induct)
  case (1 es)
  have "sizeEntries fs p (map (\<lambda>e. Dirent (fst e) (is_dir (snd e))) es) 0 = 0 + partial_entries es"
  proof (rule sizeEntries_partial [of es fs p "[]"])
    fix e fs' p' assume "e \<in> set es" "lookup fs' p' = Inr (snd e)"
    with "1.IH" [of e fs' p'] "1.prems"(1) show "getDirectorySize fs' p' = Inr (partial_sum (snd e))"
      by simp
  qed (use "1.prems" in simp_all)
  with "1.prems" show ?case by (simp add: fs_readdir_def)
qed (simp_all add: fs_readdir_def)

lemma getContextSize_partial:
  "wellformed n \<Longrightarrow> lookup fs p = Inr n \<Longrightarrow> getContextSize fs p = Inr (partial_sum n)"
  using getDirectorySize_partial [of n fs p]
  by (simp add: getContextSize_def resolve_def del: getDirectorySize.simps)

lemma getContextSize_returns: "\<exists>n. getContextSize fs p = Inr n"
  by (simp add: getContextSize_def del: getDirectorySize.simps split: sum.splits)

lemma partial_le_total: "partial_entries es \<le> total_bytes (Dir es)"
  by (induction es rule: partial_entries.induct) auto

lemma partial_total: "regular (Dir es) \<Longrightarrow> partial_entries es = total_bytes (Dir es)"
  by (induction es rule: partial_entries.induct) auto

lemma partial_regular:
  "regular (Dir es1) \<Longrightarrow> partial_entries (es1 @ es2) = total_bytes (Dir es1) + partial_entries es2"
proof (induction es1)
  case Nil
  then show ?case by simp
next
  case (Cons e es1)
  obtain x c where e: "e = (x, c)" by (cases e)
  show ?case
  proof (cases c)
    case (Dir cs)
    with Cons e partial_total [of cs] show ?thesis by simp
  qed (use Cons e in auto)
qed

section \<open>A source of regular files and directories is copied\<close>

lemma height_entry: "e \<in> set es \<Longrightarrow> height (snd e) < height (Dir es)"
  by (induction es) auto

lemma copyEntries_succeeds:
  assumes P: "\<And>fs s t cs. lookup fs s = Inr (Dir cs) \<Longrightarrow> wellformed (Dir cs) \<Longrightarrow>
        regular (Dir cs) \<Longrightarrow> height (Dir cs) \<le> k \<Longrightarrow>
        lookup fs t = Inr (Dir []) \<Longrightarrow> \<not> prefix s t \<Longrightarrow> \<not> prefix t s \<Longrightarrow>
        copyDirectory k fs s t = Some (Done (put fs t (Dir cs)))"
  shows "lookup fs0 s = Inr (Dir (es1 @ es2)) \<Longrightarrow> wellformed (Dir (es1 @ es2)) \<Longrightarrow>
        regular (Dir es2) \<Longrightarrow> \<forall>e \<in> set es2. height (snd e) \<le> k \<Longrightarrow>
        lookup fs0 t = Inr d \<Longrightarrow> \<not> prefix s t \<Longrightarrow> \<not> prefix t s \<Longrightarrow>
        copyEntries k (put fs0 t (Dir es1)) s t (map (\<lambda>e. Dirent (fst e) (is_dir (snd e))) es2)
          = Some (Done (put fs0 t (Dir (es1 @ es2))))"
proof (induction es2 arbitrary: es1)
  case Nil
  then show ?case by simp
next
  case (Cons e es2)
  obtain x c where e: "e = (x, c)" by (cases e)
  let ?fsi = "put fs0 t (Dir es1)"
  from Cons.prems(2) e have dist: "map_of es1 x = None" and wfc: "wellformed c"
    by (auto simp: map_of_eq_None_iff)
  have f1: "lookup ?fsi t = Inr (Dir es1)"
    using Cons.prems(5) by (rule lookup_put_same)
  have f3: "lookup fs0 (s @ [x]) = Inr c"
    using Cons.prems(1) dist e by (simp add: lookup_append map_add_def)
  have ind1: "\<not> prefix t (s @ [x])" and ind2: "\<not> prefix (s @ [x]) t"
    and ind3: "\<not> prefix (s @ [x]) (t @ [x])" and ind4: "\<not> prefix (t @ [x]) (s @ [x])"
    using Cons.prems(6,7) prefix_snoc_indep1 [of s t x] prefix_snoc_indep2 [of s t x]
      prefix_snoc_indep3 [of s t x x] prefix_snoc_indep3 [of t s x x] by blast+
  have f4: "lookup ?fsi (s @ [x]) = Inr c"
    using f3 ind1 ind2 by (simp add: lookup_put_indep)
  have f5: "lookup ?fsi (t @ [x]) = Inl ENOENT"
    using f1 dist by (simp add: lookup_append)
  have rest: "copyEntries k (put fs0 t (Dir (es1 @ [(x, c)]))) s t
        (map (\<lambda>e. Dirent (fst e) (is_dir (snd e))) es2) = Some (Done (put fs0 t (Dir (es1 @ e # es2))))"
  proof -
    have a: "lookup fs0 s = Inr (Dir ((es1 @ [(x, c)]) @ es2))"
      and b: "wellformed (Dir ((es1 @ [(x, c)]) @ es2))"
      using Cons.prems(1,2) e by simp_all
    have c: "regular (Dir es2)" and d: "\<forall>e \<in> set es2. height (snd e) \<le> k"
      using Cons.prems(3,4) by simp_all
    from Cons.IH [OF a b c d Cons.prems(5,6,7)] e show ?thesis by simp
  qed
  show ?case
  proof (cases c)
    case (File b)
    have "fs_copyFile ?fsi (s @ [x]) (t @ [x]) = Inr (put fs0 t (Dir (es1 @ [(x, File b)])))"
      using f4 f1 dist File Cons.prems(5)
      by (simp add: fs_copyFile_def write_at put_put)
    with rest e File show ?thesis by (simp add: join_def)
  next
    case (Dir cs)
    let ?fs1 = "put fs0 t (Dir (es1 @ [(x, Dir [])]))"
    have m: "ensureDirectory ?fsi (t @ [x]) = Inr ?fs1"
      using f5 f1 dist Cons.prems(5)
      by (simp add: ensureDirectory_def resolve_def fs_access_def mkdir_at update_absent put_put)
    have l1: "lookup ?fs1 t = Inr (Dir (es1 @ [(x, Dir [])]))"
      using Cons.prems(5) by (rule lookup_put_same)
    have l2: "lookup ?fs1 (t @ [x]) = Inr (Dir [])"
      using l1 dist by (simp add: lookup_append map_add_def)
    have l3: "lookup ?fs1 (s @ [x]) = Inr (Dir cs)"
      using f3 ind1 ind2 Dir by (simp add: lookup_put_indep)
    have "copyDirectory k ?fs1 (s @ [x]) (t @ [x]) = Some (Done (put ?fs1 (t @ [x]) (Dir cs)))"
      using P [OF l3 _ _ _ l2 ind3 ind4] wfc Dir Cons.prems(3,4) e by simp
    also have "put ?fs1 (t @ [x]) (Dir cs) = put ?fs1 t (put (Dir (es1 @ [(x, Dir [])])) [x] (Dir cs))"
      using l1 by (rule put_append)
    also have "\<dots> = put fs0 t (Dir (es1 @ [(x, c)]))"
      using dist Dir Cons.prems(5) by (simp add: map_add_def update_last_entry put_put)
    finally show ?thesis using rest e Dir m by (simp add: join_def)
  next
    case Link
    with Cons.prems(3) e show ?thesis by simp
  qed
qed

lemma copyDirectory_succeeds:
  "lookup fs s = Inr (Dir cs) \<Longrightarrow> wellformed (Dir cs) \<Longrightarrow>
        regular (Dir cs) \<Longrightarrow> height (Dir cs) \<le> k \<Longrightarrow>
        lookup fs t = Inr (Dir []) \<Longrightarrow> \<not> prefix s t \<Longrightarrow> \<not> prefix t s \<Longrightarrow>
        copyDirectory k fs s t = Some (Done (put fs t (Dir cs)))"
proof (induction k arbitrary: fs s t cs)
  case 0
  then show ?case by simp
next
  case (Suc k)
  have h: "\<forall>e \<in> set cs. height (snd e) \<le> k"
  proof
    fix e assume "e \<in> set cs"
    from height_entry [OF this] Suc.prems(4) show "height (snd e) \<le> k" by linarith
  qed
  have a: "lookup fs s = Inr (Dir ([] @ cs))" and b: "wellformed (Dir ([] @ cs))"
    using Suc.prems(1,2) by simp_all
  have "copyEntries k (put fs t (Dir [])) s t (map (\<lambda>e. Dirent (fst e) (is_dir (snd e))) cs)
      = Some (Done (put fs t (Dir ([] @ cs))))"
    using Suc.IH a b Suc.prems(3) h Suc.prems(5,6,7) by (rule copyEntries_succeeds)
  with Suc.prems(1,5) show ?case by (simp add: resolve_def fs_readdir_def put_lookup_id)
qed

text \<open>
  A source of regular files and directories is copied whenever the fuel covers its
  depth, a directory can be put at the target and neither path lies inside the other.
\<close>

lemma copyContext_succeeds:
  assumes "lookup fs src = Inr (Dir cs)" and "wellformed fs" and "regular (Dir cs)"
    and "height (Dir cs) \<le> fuel" and "creatable fs tgt"
    and "\<not> prefix src tgt" and "\<not> prefix tgt src"
  shows "\<exists>fs'. copyContext fuel fs src tgt = Some (Done fs')"
proof -
  from creatable_prepared [OF assms(5)] obtain fsR fsA where
    r: "fs_rm fs tgt = Inr fsR" and m: "fs_mkdir fsR tgt = Inr fsA" by blast
  from rm_absent [OF r] have a: "lookup fsR tgt = Inl ENOENT" .
  from mkdir_result [OF m] a have e: "lookup fsA tgt = Inr (Dir [])" by auto
  have s: "lookup fsA src = Inr (Dir cs)"
    using mkdir_frame [OF m, of src] rm_frame [OF r, of src] assms(1,6,7) by simp
  from wellformed_lookup [OF assms(2,1)] have w: "wellformed (Dir cs)" .
  have "ensureDirectory fsR tgt = Inr fsA"
    using a m by (simp add: ensureDirectory_def resolve_def fs_access_def)
  with r copyDirectory_succeeds [OF s w assms(3,4) e assms(6,7)]
  show ?thesis by (simp add: copyContext_def)
qed


section \<open>Copying and measuring a context directory\<close>

text \<open>
  C1, as the specification has it: after a successful \<^verbatim>\<open>copyContext\<close> the target is a
  complete duplicate of the source as it was. With the same path for both, the call
  removes the directory, creates it again, finds nothing to copy and succeeds: the file
  that was in it is gone.
\<close>

theorem copyContext_onto_itself_counterexample:
  "copyContext 1 base_disk [''contexts'', ''session-1''] [''contexts'', ''session-1'']
     = Some (Done emptied_disk) \<and>
   lookup base_disk ([''contexts'', ''session-1''] @ [''stale.txt'']) = Inr (File ''old'') \<and>
   lookup emptied_disk ([''contexts'', ''session-1''] @ [''stale.txt'']) = Inl ENOENT"
  by code_simp

text \<open>
  C1, amended: when neither path lies inside the other, a successful
  \<^verbatim>\<open>copyContext(sourcePath, targetPath)\<close> leaves at the target the tree that was at the
  source, so every regular file of the source is at the same relative path under the
  target with the same bytes; the source and everything else beside the target are as
  they were. For a source directory of regular files and directories the call does
  succeed, once the bound on the recursion covers the depth of the source and a
  directory can be put at the target.
\<close>

theorem copyContext_duplicates:
  assumes "wellformed fs" and "\<not> prefix src tgt" and "\<not> prefix tgt src"
  shows "(\<forall>fs'. copyContext fuel fs src tgt = Some (Done fs') \<longrightarrow>
            lookup fs' tgt = lookup fs src \<and> lookup fs' src = lookup fs src \<and>
            (\<forall>p b. lookup fs (src @ p) = Inr (File b) \<longrightarrow> lookup fs' (tgt @ p) = Inr (File b)) \<and>
            (\<forall>q. \<not> prefix tgt q \<longrightarrow> \<not> prefix q tgt \<longrightarrow> lookup fs' q = lookup fs q)) \<and>
         (\<forall>cs. lookup fs src = Inr (Dir cs) \<longrightarrow> regular (Dir cs) \<longrightarrow>
            height (Dir cs) \<le> fuel \<longrightarrow> creatable fs tgt \<longrightarrow>
            (\<exists>fs'. copyContext fuel fs src tgt = Some (Done fs')))"
proof (intro conjI allI impI)
  fix cs assume "lookup fs src = Inr (Dir cs)" "regular (Dir cs)" "height (Dir cs) \<le> fuel"
    "creatable fs tgt"
  with assms show "\<exists>fs'. copyContext fuel fs src tgt = Some (Done fs')"
    by (simp add: copyContext_succeeds)
next
  fix fs' assume c: "copyContext fuel fs src tgt = Some (Done fs')"
  have ne: "tgt \<noteq> []" using assms(3) by auto
  from copyContext_Done_shape [OF assms(1) ne c] obtain fsR fsA cs where
    r: "fs_rm fs tgt = Inr fsR" and m: "fs_mkdir fsR tgt = Inr fsA"
    and p: "fs' = put fsA tgt (Dir cs)"
    and s: "lookup fs' src = Inr (Dir cs)" and t: "lookup fs' tgt = Inr (Dir cs)"
    and rel: "src = tgt \<and> cs = [] \<or>
         \<not> prefix src tgt \<and> \<not> prefix tgt src \<and> lookup fs src = Inr (Dir cs)"
    by blast
  from rel assms(2) have l: "lookup fs src = Inr (Dir cs)" by auto
  show "lookup fs' tgt = lookup fs src" "lookup fs' src = lookup fs src"
    using l s t by simp_all
  show "\<And>q. \<not> prefix tgt q \<Longrightarrow> \<not> prefix q tgt \<Longrightarrow> lookup fs' q = lookup fs q"
    using p mkdir_frame [OF m] rm_frame [OF r] by (simp add: lookup_put_indep)
  show "\<And>p b. lookup fs (src @ p) = Inr (File b) \<Longrightarrow> lookup fs' (tgt @ p) = Inr (File b)"
    using l t by (simp add: lookup_append)
qed

theorem copyContext_duplicates_witness:
  "wellformed base_disk \<and>
   \<not> prefix [''contexts'', ''base-context''] [''contexts'', ''session-1''] \<and>
   \<not> prefix [''contexts'', ''session-1''] [''contexts'', ''base-context''] \<and>
   copyContext 3 base_disk [''contexts'', ''base-context''] [''contexts'', ''session-1'']
     = Some (Done copied_disk) \<and>
   lookup copied_disk [''contexts'', ''session-1'']
     = lookup base_disk [''contexts'', ''base-context''] \<and>
   lookup base_disk ([''contexts'', ''base-context''] @ [''sub'', ''b.txt''])
     = Inr (File ''01234567890123456789'') \<and>
   lookup copied_disk ([''contexts'', ''session-1''] @ [''sub'', ''b.txt''])
     = Inr (File ''01234567890123456789'') \<and>
   creatable base_disk [''contexts'', ''session-1'']"
proof -
  have w: "wellformed base_disk" by code_simp
  have a: "\<not> prefix [''contexts'', ''base-context''] [''contexts'', ''session-1'']"
    "\<not> prefix [''contexts'', ''session-1''] [''contexts'', ''base-context'']" by simp_all
  have c: "copyContext 3 base_disk [''contexts'', ''base-context''] [''contexts'', ''session-1'']
     = Some (Done copied_disk)" by code_simp
  have f: "lookup base_disk ([''contexts'', ''base-context''] @ [''sub'', ''b.txt''])
     = Inr (File ''01234567890123456789'')" by code_simp
  have cr: "creatable base_disk [''contexts'', ''session-1'']" by code_simp
  from copyContext_duplicates [OF w a, of 3] c f w a cr show ?thesis by simp
qed

text \<open>
  C2, as the specification has it: the copy preserves the total size. Copied onto
  itself, a directory of 3 bytes measures 0 afterwards.
\<close>

theorem copyContext_onto_itself_size_counterexample:
  "copyContext 1 base_disk [''contexts'', ''session-1''] [''contexts'', ''session-1'']
     = Some (Done emptied_disk) \<and>
   getContextSize base_disk [''contexts'', ''session-1''] = Inr 3 \<and>
   getContextSize emptied_disk [''contexts'', ''session-1''] = Inr 0"
  by code_simp

text \<open>
  C2, amended: for a source directory of regular files and directories, and a target
  at which a directory can be put, neither path inside the other, \<^verbatim>\<open>copyContext\<close>
  succeeds, and afterwards \<^verbatim>\<open>getContextSize\<close> gives for the target and for the source
  the number it gave for the source before, the bytes of all its files.
\<close>

theorem copyContext_preserves_size:
  assumes "wellformed fs" and "lookup fs src = Inr (Dir cs)" and "regular (Dir cs)"
    and "height (Dir cs) \<le> fuel" and "creatable fs tgt"
    and "\<not> prefix src tgt" and "\<not> prefix tgt src"
  shows "\<exists>fs'. copyContext fuel fs src tgt = Some (Done fs') \<and>
           getContextSize fs' tgt = Inr (total_bytes (Dir cs)) \<and>
           getContextSize fs' src = Inr (total_bytes (Dir cs)) \<and>
           getContextSize fs src = Inr (total_bytes (Dir cs))"
proof -
  from copyContext_succeeds [OF assms(2,1,3,4,5,6,7)] obtain fs' where
    c: "copyContext fuel fs src tgt = Some (Done fs')" ..
  have ne: "tgt \<noteq> []" using assms(7) by auto
  from copyContext_Done_shape [OF assms(1) ne c] obtain cs' where
    s: "lookup fs' src = Inr (Dir cs')" and t: "lookup fs' tgt = Inr (Dir cs')"
    and rel: "src = tgt \<and> cs' = [] \<or>
         \<not> prefix src tgt \<and> \<not> prefix tgt src \<and> lookup fs src = Inr (Dir cs')"
    by blast
  from rel assms(2,6) have "cs' = cs" by auto
  from wellformed_lookup [OF assms(1,2)] have w: "wellformed (Dir cs)" .
  have "partial_sum (Dir cs) = total_bytes (Dir cs)"
    using partial_total [OF assms(3)] by simp
  with getContextSize_partial [OF w, of fs' tgt] getContextSize_partial [OF w, of fs' src]
    getContextSize_partial [OF w, of fs src] s t \<open>cs' = cs\<close> assms(2) c
  show ?thesis by auto
qed

theorem copyContext_preserves_size_witness:
  "wellformed base_disk \<and>
   lookup base_disk [''contexts'', ''base-context''] =
     Inr (Dir [(''a.txt'', File ''0123456789''),
               (''sub'', Dir [(''b.txt'', File ''01234567890123456789'')])]) \<and>
   regular (Dir [(''a.txt'', File ''0123456789''),
               (''sub'', Dir [(''b.txt'', File ''01234567890123456789'')])]) \<and>
   height (Dir [(''a.txt'', File ''0123456789''),
               (''sub'', Dir [(''b.txt'', File ''01234567890123456789'')])]) \<le> 3 \<and>
   creatable base_disk [''contexts'', ''session-1''] \<and>
   \<not> prefix [''contexts'', ''base-context''] [''contexts'', ''session-1''] \<and>
   \<not> prefix [''contexts'', ''session-1''] [''contexts'', ''base-context''] \<and>
   (\<exists>fs'. copyContext 3 base_disk [''contexts'', ''base-context''] [''contexts'', ''session-1'']
            = Some (Done fs') \<and>
          getContextSize fs' [''contexts'', ''session-1''] = Inr 30 \<and>
          getContextSize fs' [''contexts'', ''base-context''] = Inr 30 \<and>
          getContextSize base_disk [''contexts'', ''base-context''] = Inr 30)"
proof -
  let ?cs = "[(''a.txt'', File ''0123456789''),
               (''sub'', Dir [(''b.txt'', File ''01234567890123456789'')])]"
  have w: "wellformed base_disk" by code_simp
  have l: "lookup base_disk [''contexts'', ''base-context''] = Inr (Dir ?cs)" by code_simp
  have r: "regular (Dir ?cs)" by simp
  have h: "height (Dir ?cs) \<le> 3" by simp
  have cr: "creatable base_disk [''contexts'', ''session-1'']" by code_simp
  have a: "\<not> prefix [''contexts'', ''base-context''] [''contexts'', ''session-1'']"
    "\<not> prefix [''contexts'', ''session-1''] [''contexts'', ''base-context'']" by simp_all
  have t: "total_bytes (Dir ?cs) = 30" by simp
  have e: "\<exists>fs'. copyContext 3 base_disk [''contexts'', ''base-context''] [''contexts'', ''session-1'']
            = Some (Done fs') \<and>
          getContextSize fs' [''contexts'', ''session-1''] = Inr 30 \<and>
          getContextSize fs' [''contexts'', ''base-context''] = Inr 30 \<and>
          getContextSize base_disk [''contexts'', ''base-context''] = Inr 30"
    using copyContext_preserves_size [OF w l r h cr a] unfolding t .
  from e w l r h cr a show ?thesis by blast
qed



text \<open>
  C10, as stated: with a source that does not exist the call raises an
  error. With the same missing path for source and target it creates the directory,
  reads it and succeeds.
\<close>

theorem copyContext_missing_both_counterexample:
  "lookup base_disk [''contexts'', ''tmp''] = Inl ENOENT \<and>
   copyContext 1 base_disk [''contexts'', ''tmp''] [''contexts'', ''tmp''] =
     Some (Done (Dir [(''contexts'',
           Dir [(''base-context'',
                 Dir [(''a.txt'', File ''0123456789''),
                      (''sub'', Dir [(''b.txt'', File ''01234567890123456789'')])]),
                (''session-1'', Dir [(''stale.txt'', File ''old'')]),
                (''tmp'', Dir [])])]))"
  by code_simp

text \<open>
  C10, amended: when the source does not exist, is neither the target path nor a
  directory above it, and a directory can be put at the target (no regular file and no
  dangling link stands where a directory above it is needed), \<^verbatim>\<open>copyContext\<close> throws
  \<^verbatim>\<open>ENOENT\<close> from the first \<^verbatim>\<open>readdir\<close>, after it has removed whatever was at the target
  and created the target again: the state it leaves has an empty directory at the
  target and is otherwise as before.
\<close>

theorem copyContext_missing_source:
  assumes "lookup fs src = Inl ENOENT" and "\<not> prefix src tgt" and "creatable fs tgt"
  shows "\<exists>fs'. copyContext (Suc fuel) fs src tgt = Some (Failed ENOENT fs') \<and>
           lookup fs' tgt = Inr (Dir []) \<and>
           (\<forall>q. \<not> prefix tgt q \<longrightarrow> \<not> prefix q tgt \<longrightarrow> lookup fs' q = lookup fs q)"
proof -
  from creatable_prepared [OF assms(3)] obtain fsR fsA where
    r: "fs_rm fs tgt = Inr fsR" and m: "fs_mkdir fsR tgt = Inr fsA" by blast
  from rm_absent [OF r] have a: "lookup fsR tgt = Inl ENOENT" .
  from mkdir_result [OF m] a have e: "lookup fsA tgt = Inr (Dir [])" by auto
  have frame: "\<And>q. \<not> prefix tgt q \<Longrightarrow> \<not> prefix q tgt \<Longrightarrow> lookup fsA q = lookup fs q"
    using mkdir_frame [OF m] rm_frame [OF r] by simp
  have "lookup fsA src = Inl ENOENT"
  proof (cases "prefix tgt src")
    case True
    with assms(2) obtain y q where "src = tgt @ y # q"
      by (metis prefix_def neq_Nil_conv append_Nil2 prefix_order.refl)
    with e show ?thesis by (simp add: lookup_append)
  next
    case False
    with frame assms(1,2) show ?thesis by simp
  qed
  then have "copyDirectory (Suc fuel) fsA src tgt = Some (Failed ENOENT fsA)"
    by (simp add: resolve_def fs_readdir_def)
  moreover have "ensureDirectory fsR tgt = Inr fsA"
    using a m by (simp add: ensureDirectory_def resolve_def fs_access_def)
  ultimately have "copyContext (Suc fuel) fs src tgt = Some (Failed ENOENT fsA)"
    using r by (simp add: copyContext_def)
  with e frame show ?thesis by blast
qed

theorem copyContext_missing_source_witness:
  "lookup base_disk [''contexts'', ''missing''] = Inl ENOENT \<and>
   \<not> prefix [''contexts'', ''missing''] [''contexts'', ''session-1''] \<and>
   creatable base_disk [''contexts'', ''session-1''] \<and>
   lookup base_disk [''contexts'', ''session-1''] = Inr (Dir [(''stale.txt'', File ''old'')]) \<and>
   (\<exists>fs'. copyContext 1 base_disk [''contexts'', ''missing''] [''contexts'', ''session-1'']
            = Some (Failed ENOENT fs') \<and>
          lookup fs' [''contexts'', ''session-1''] = Inr (Dir []))"
proof -
  have a: "lookup base_disk [''contexts'', ''missing''] = Inl ENOENT" by code_simp
  have n: "\<not> prefix [''contexts'', ''missing''] [''contexts'', ''session-1'']" by simp
  have cr: "creatable base_disk [''contexts'', ''session-1'']" by code_simp
  have t: "lookup base_disk [''contexts'', ''session-1''] = Inr (Dir [(''stale.txt'', File ''old'')])"
    by code_simp
  from copyContext_missing_source [OF a n cr, of 0] a n cr t show ?thesis by auto
qed

text \<open>
  C5, as the specification has it: \<^verbatim>\<open>getContextSize\<close> is 0 whenever an error occurs
  during the traversal. In the locked profile \<^verbatim>\<open>stat\<close> fails on the lock link, after
  the file listed before it has been counted, and the result is that file's size.
\<close>

theorem getContextSize_error_counterexample:
  "fs_readdir locked_profile [''profile''] =
     Inr [Dirent ''A.txt'' False, Dirent ''SingletonLock'' False, Dirent ''b.txt'' False] \<and>
   fs_stat locked_profile [''profile'', ''SingletonLock''] = Inl ENOENT \<and>
   getContextSize locked_profile [''profile''] = Inr 10"
  by code_simp

text \<open>
  C5, amended: \<^verbatim>\<open>getContextSize\<close> never throws. It is 0 whenever the path does not exist
  or cannot be read as a directory. When \<^verbatim>\<open>stat\<close> fails on an entry of the directory,
  the error is swallowed as well, and the result is the bytes of the entries listed
  before that one: 0 only if they hold none.
\<close>

theorem getContextSize_unreadable_path:
  "(\<exists>n. getContextSize fs p = Inr n) \<and>
   (\<forall>e. lookup fs p = Inl e \<longrightarrow> getContextSize fs p = Inr 0) \<and>
   (\<forall>e. fs_readdir fs p = Inl e \<longrightarrow> getContextSize fs p = Inr 0) \<and>
   (wellformed fs \<longrightarrow>
      (\<forall>before x after. lookup fs p = Inr (Dir (before @ (x, Link) # after)) \<longrightarrow>
         regular (Dir before) \<longrightarrow>
         fs_stat fs (p @ [x]) = Inl ENOENT \<and>
         getContextSize fs p = Inr (total_bytes (Dir before))))"
proof (intro conjI allI impI)
  show "\<exists>n. getContextSize fs p = Inr n" by (rule getContextSize_returns)
next
  fix e assume "lookup fs p = Inl e"
  then show "getContextSize fs p = Inr 0"
    by (simp add: getContextSize_def resolve_def fs_readdir_def)
next
  fix e assume "fs_readdir fs p = Inl e"
  then show "getContextSize fs p = Inr 0"
    by (simp add: getContextSize_def resolve_def)
next
  fix before x after
  assume w: "wellformed fs" and l: "lookup fs p = Inr (Dir (before @ (x, Link) # after))"
    and r: "regular (Dir before)"
  from wellformed_lookup [OF w l] have "map_of before x = None"
    by (auto simp: map_of_eq_None_iff)
  with l have "lookup fs (p @ [x]) = Inr Link" by (simp add: lookup_append map_add_def)
  then show "fs_stat fs (p @ [x]) = Inl ENOENT" by (simp add: fs_stat_def)
  from getContextSize_partial [OF wellformed_lookup [OF w l] l]
    partial_regular [OF r, of "(x, Link) # after"]
  show "getContextSize fs p = Inr (total_bytes (Dir before))" by simp
qed

theorem getContextSize_unreadable_path_witness:
  "lookup base_disk [''contexts'', ''missing''] = Inl ENOENT \<and>
   fs_readdir base_disk [''contexts'', ''base-context'', ''a.txt''] = Inl ENOTDIR \<and>
   getContextSize base_disk [''contexts'', ''missing''] = Inr 0 \<and>
   getContextSize base_disk [''contexts'', ''base-context'', ''a.txt''] = Inr 0 \<and>
   wellformed locked_profile \<and>
   lookup locked_profile [''profile''] =
     Inr (Dir ([(''A.txt'', File ''0123456789'')] @ (''SingletonLock'', Link) #
               [(''b.txt'', File ''01234567890123456789'')])) \<and>
   regular (Dir [(''A.txt'', File ''0123456789'')]) \<and>
   fs_stat locked_profile ([''profile''] @ [''SingletonLock'']) = Inl ENOENT \<and>
   getContextSize locked_profile [''profile''] = Inr 10"
proof -
  have a: "lookup base_disk [''contexts'', ''missing''] = Inl ENOENT" by code_simp
  have b: "fs_readdir base_disk [''contexts'', ''base-context'', ''a.txt''] = Inl ENOTDIR"
    by code_simp
  have w: "wellformed locked_profile" by code_simp
  have l: "lookup locked_profile [''profile''] =
     Inr (Dir ([(''A.txt'', File ''0123456789'')] @ (''SingletonLock'', Link) #
               [(''b.txt'', File ''01234567890123456789'')]))" by code_simp
  have r: "regular (Dir [(''A.txt'', File ''0123456789'')])" by simp
  from getContextSize_unreadable_path [of locked_profile "[''profile'']"] w l r
  have "fs_stat locked_profile ([''profile''] @ [''SingletonLock'']) = Inl ENOENT \<and>
      getContextSize locked_profile [''profile''] =
      Inr (total_bytes (Dir [(''A.txt'', File ''0123456789'')]))" by blast
  with getContextSize_unreadable_path [of base_disk "[''contexts'', ''missing'']"]
    getContextSize_unreadable_path [of base_disk "[''contexts'', ''base-context'', ''a.txt'']"]
    a b w l r show ?thesis by simp
qed

text \<open>
  C8: \<^verbatim>\<open>getContextSize\<close> returns a natural number for every path and never throws.
  What it returns is the partial sum: in every directory the entries up to the first
  one that cannot be measured, never more than the bytes of the tree. When the failing
  entry is in the measured directory itself, the result is the bytes of the entries
  before it; when it is in a subdirectory, the entries of that subdirectory after the
  failing one are left out and everything else is counted.
\<close>

theorem getContextSize_partial_sum:
  "(\<exists>n. getContextSize fs p = Inr n) \<and>
   (wellformed fs \<longrightarrow>
      (\<forall>c. lookup fs p = Inr c \<longrightarrow>
         getContextSize fs p = Inr (partial_sum c) \<and> partial_sum c \<le> total_bytes c)) \<and>
   (wellformed fs \<longrightarrow>
      (\<forall>before x after. lookup fs p = Inr (Dir (before @ (x, Link) # after)) \<longrightarrow>
         regular (Dir before) \<longrightarrow> getContextSize fs p = Inr (total_bytes (Dir before)))) \<and>
   (wellformed fs \<longrightarrow>
      (\<forall>before d inner x rest after.
         lookup fs p = Inr (Dir (before @ (d, Dir (inner @ (x, Link) # rest)) # after)) \<longrightarrow>
         regular (Dir before) \<longrightarrow> regular (Dir inner) \<longrightarrow> regular (Dir after) \<longrightarrow>
         getContextSize fs p =
           Inr (total_bytes (Dir before) + total_bytes (Dir inner) + total_bytes (Dir after))))"
proof (intro conjI impI allI)
  show "\<exists>n. getContextSize fs p = Inr n" by (rule getContextSize_returns)
next
  fix c assume w: "wellformed fs" and l: "lookup fs p = Inr c"
  from wellformed_lookup [OF w l] l show "getContextSize fs p = Inr (partial_sum c)"
    by (rule getContextSize_partial)
  show "partial_sum c \<le> total_bytes c"
    using partial_le_total by (cases c) simp_all
next
  fix before x after
  assume w: "wellformed fs" and l: "lookup fs p = Inr (Dir (before @ (x, Link) # after))"
    and r: "regular (Dir before)"
  from getContextSize_partial [OF wellformed_lookup [OF w l] l]
    partial_regular [OF r, of "(x, Link) # after"]
  show "getContextSize fs p = Inr (total_bytes (Dir before))" by simp
next
  fix before d inner x rest after
  assume w: "wellformed fs"
    and l: "lookup fs p = Inr (Dir (before @ (d, Dir (inner @ (x, Link) # rest)) # after))"
    and r: "regular (Dir before)" "regular (Dir inner)" "regular (Dir after)"
  have "partial_entries (before @ (d, Dir (inner @ (x, Link) # rest)) # after) =
      total_bytes (Dir before) + (partial_entries (inner @ (x, Link) # rest) + partial_entries after)"
    using partial_regular [OF r(1)] by simp
  also have "partial_entries (inner @ (x, Link) # rest) = total_bytes (Dir inner)"
    using partial_regular [OF r(2), of "(x, Link) # rest"] by simp
  also have "partial_entries after = total_bytes (Dir after)"
    using r(3) by (rule partial_total)
  finally show "getContextSize fs p =
      Inr (total_bytes (Dir before) + total_bytes (Dir inner) + total_bytes (Dir after))"
    using getContextSize_partial [OF wellformed_lookup [OF w l] l] by simp
qed

theorem getContextSize_partial_sum_witness:
  "wellformed locked_profile \<and>
   lookup locked_profile [''profile''] =
     Inr (Dir ([(''A.txt'', File ''0123456789'')] @ (''SingletonLock'', Link) #
               [(''b.txt'', File ''01234567890123456789'')])) \<and>
   regular (Dir [(''A.txt'', File ''0123456789'')]) \<and>
   getContextSize locked_profile [''profile''] = Inr 10 \<and>
   total_bytes (Dir ([(''A.txt'', File ''0123456789'')] @ (''SingletonLock'', Link) #
               [(''b.txt'', File ''01234567890123456789'')])) = 30"
proof -
  have w: "wellformed locked_profile" by code_simp
  have l: "lookup locked_profile [''profile''] =
     Inr (Dir ([(''A.txt'', File ''0123456789'')] @ (''SingletonLock'', Link) #
               [(''b.txt'', File ''01234567890123456789'')]))" by code_simp
  have r: "regular (Dir [(''A.txt'', File ''0123456789'')])" by simp
  from getContextSize_partial_sum [of locked_profile "[''profile'']"] w l r
  have "getContextSize locked_profile [''profile''] =
      Inr (total_bytes (Dir [(''A.txt'', File ''0123456789'')]))" by blast
  with w l r show ?thesis by simp
qed

section \<open>Formatting a byte count\<close>

declare floor_log.simps [simp del] show_nat.simps [simp del]

lemma floor_log_small: "n < k \<Longrightarrow> floor_log k n = 0"
  by (simp add: floor_log.simps)

lemma floor_log_step:
  "2 \<le> k \<Longrightarrow> k \<le> n \<Longrightarrow> floor_log k n = Suc (floor_log k (n div k))"
  by (subst floor_log.simps) simp

lemma show_nat_digit: "n < 10 \<Longrightarrow> show_nat n = [digit n]"
  by (simp add: show_nat.simps)

lemma show_nat_step: "10 \<le> n \<Longrightarrow> show_nat n = show_nat (n div 10) @ [digit (n mod 10)]"
  by (subst show_nat.simps) simp

lemmas formatBytes_eval =
  formatBytes_def formatBytes_at_def parseFloat_string_def hundredths_def unit_at_def sizes_def digit_def
  toFixed2_def Let_def floor_log_small floor_log_step show_nat_digit show_nat_step

text \<open>\<open>floor_log k n\<close> is the exponent of the largest power of \<open>k\<close> that is at most \<open>n\<close>.\<close>

lemma floor_log_bounds:
  "2 \<le> k \<Longrightarrow> 0 < n \<Longrightarrow> k ^ floor_log k n \<le> n \<and> n < k ^ Suc (floor_log k n)"
proof (induction k n rule: floor_log.induct)
  case (1 k n)
  show ?case
  proof (cases "n < k")
    case True
    with 1 show ?thesis by (simp add: floor_log_small)
  next
    case False
    with "1.prems" have pos: "0 < n div k" and k: "\<not> (k < 2 \<or> n < k)"
      by (auto simp: div_greater_zero_iff)
    from "1.IH" [OF k "1.prems"(1) pos]
    have lo: "k ^ floor_log k (n div k) \<le> n div k"
      and hi: "n div k < k ^ Suc (floor_log k (n div k))" by simp_all
    from lo have "k * k ^ floor_log k (n div k) \<le> k * (n div k)" by simp
    also have "\<dots> \<le> n" by simp
    finally have a: "k ^ Suc (floor_log k (n div k)) \<le> n" by simp
    from hi have "Suc (n div k) \<le> k ^ Suc (floor_log k (n div k))" by simp
    then have "k * Suc (n div k) \<le> k * k ^ Suc (floor_log k (n div k))"
      by (rule mult_le_mono2)
    moreover have "n < k * Suc (n div k)"
      using "1.prems"(1) by (simp add: dividend_less_times_div mult.commute)
    ultimately have b: "n < k ^ Suc (Suc (floor_log k (n div k)))" by simp
    from a b False "1.prems"(1) show ?thesis by (simp add: floor_log_step)
  qed
qed

lemma floor_log_ge_iff:
  assumes "2 \<le> k" and "0 < n"
  shows "m \<le> floor_log k n \<longleftrightarrow> k ^ m \<le> n"
proof
  assume "m \<le> floor_log k n"
  then have "k ^ m \<le> k ^ floor_log k n"
    using assms(1) by (simp add: power_increasing)
  with floor_log_bounds [OF assms] show "k ^ m \<le> n" by simp
next
  assume "k ^ m \<le> n"
  with floor_log_bounds [OF assms] have lt: "k ^ m < k ^ Suc (floor_log k n)" by simp
  have "1 < k" using assms(1) by simp
  from power_less_imp_less_exp [OF this lt] show "m \<le> floor_log k n" by simp
qed

text \<open>The hundredths are the nearest ones, the larger of two equally near.\<close>

lemma hundredths_nearest:
  assumes "0 < den"
  shows "2 * den * hundredths num den \<le> 200 * num + den \<and>
     200 * num + den < 2 * den * Suc (hundredths num den)"
proof -
  let ?a = "200 * num + den" and ?b = "2 * den"
  have m: "?a mod ?b < ?b" using assms by simp
  have d: "?b * (?a div ?b) + ?a mod ?b = ?a" by (rule mult_div_mod_eq)
  have s: "?b * Suc (?a div ?b) = ?b * (?a div ?b) + ?b" by simp
  have "?b * (?a div ?b) \<le> ?a" using d by linarith
  moreover have "?a < ?b * Suc (?a div ?b)" using d m s by linarith
  ultimately show ?thesis by (simp add: hundredths_def)
qed

text \<open>
  C4, as the specification has it: \<^verbatim>\<open>formatBytes(1024)\<close> is \<^verbatim>\<open>"1.00 KB"\<close>. The code
  passes the two decimals of \<^verbatim>\<open>toFixed(2)\<close> through \<^verbatim>\<open>parseFloat\<close>, which drops the
  zeros, so the result is another string.
\<close>

theorem formatBytes_1024_counterexample: "formatBytes 1024 \<noteq> ''1.00 KB''"
  by (simp add: formatBytes_eval)

text \<open>
  C4, amended: \<^verbatim>\<open>formatBytes\<close> maps 0 to \<^verbatim>\<open>"0 Bytes"\<close> and a byte count between 1 and
  \<open>1024\<^sup>4 - 1\<close> to the value scaled by the largest power of 1024 that is at most the
  count, rounded to two decimals and printed in the shortest form, followed by the unit
  of that power among Bytes, KB, MB and GB; so 1024 gives \<^verbatim>\<open>"1 KB"\<close>, 1536 gives
  \<^verbatim>\<open>"1.5 KB"\<close> and 1073741824 gives \<^verbatim>\<open>"1 GB"\<close>.
\<close>

theorem formatBytes_shortest_form:
  "formatBytes 0 = ''0 Bytes'' \<and> formatBytes 1024 = ''1 KB'' \<and>
   formatBytes 1536 = ''1.5 KB'' \<and> formatBytes 1073741824 = ''1 GB'' \<and>
   (0 < bytes \<longrightarrow> bytes < 1024 ^ 4 \<longrightarrow>
      (\<exists>i < 4. 1024 ^ i \<le> bytes \<and> bytes < 1024 ^ Suc i \<and>
         formatBytes bytes = parseFloat_string bytes (1024 ^ i) @ '' '' @ sizes ! i))"
proof (intro conjI impI)
  show "formatBytes 0 = ''0 Bytes''" by (simp add: formatBytes_def)
  show "formatBytes 1024 = ''1 KB''" by (simp add: formatBytes_eval)
  show "formatBytes 1536 = ''1.5 KB''" by (simp add: formatBytes_eval)
  show "formatBytes 1073741824 = ''1 GB''" by (simp add: formatBytes_eval)
next
  assume pos: "0 < bytes" and lt: "bytes < 1024 ^ 4"
  let ?i = "floor_log 1024 bytes"
  have b: "1024 ^ ?i \<le> bytes \<and> bytes < 1024 ^ Suc ?i"
    using floor_log_bounds [of 1024 bytes] pos by simp
  have "\<not> 4 \<le> ?i"
    using floor_log_ge_iff [of 1024 bytes 4] pos lt by simp
  then have i: "?i < 4" by simp
  then have "formatBytes bytes = parseFloat_string bytes (1024 ^ ?i) @ '' '' @ sizes ! ?i"
    using pos by (simp add: formatBytes_def formatBytes_at_def unit_at_def sizes_def Let_def)
  with b i show "\<exists>i < 4. 1024 ^ i \<le> bytes \<and> bytes < 1024 ^ Suc i \<and>
         formatBytes bytes = parseFloat_string bytes (1024 ^ i) @ '' '' @ sizes ! i"
    by blast
qed

theorem formatBytes_shortest_form_witness:
  "(0::nat) < 2560 \<and> (2560::nat) < 1024 ^ 4 \<and>
   (\<exists>i < 4. 1024 ^ i \<le> (2560::nat) \<and> (2560::nat) < 1024 ^ Suc i \<and>
         formatBytes 2560 = parseFloat_string 2560 (1024 ^ i) @ '' '' @ sizes ! i) \<and>
   formatBytes 2560 = ''2.5 KB''"
proof -
  have "formatBytes 2560 = ''2.5 KB''" by (simp add: formatBytes_eval)
  then show ?thesis using formatBytes_shortest_form [of 2560] by simp
qed



section \<open>The browser life cycle\<close>

text \<open>
  C6 says that \<^verbatim>\<open>initialize\<close> on a manager that holds a browser closes that browser
  first. The code only overwrites the field: after two calls the first browser is still
  running, nothing refers to it, and \<^verbatim>\<open>cleanup\<close> closes the second one only.
\<close>

theorem initialize_twice_leaks:
  "browser (initialize (initialize (new_manager d))) = Some 1 \<and>
   running (initialize (initialize (new_manager d))) = {0, 1} \<and>
   running (cleanup (initialize (initialize (new_manager d)))) = {0} \<and>
   browser (cleanup (initialize (initialize (new_manager d)))) = None"
  by (auto simp: initialize_def launch_def new_manager_def cleanup_def browser_close_def)

text \<open>
  C7: once \<^verbatim>\<open>createBaseContext\<close> has ensured the directory and opened the persistent
  context, that context is closed when the call ends, whatever the page did and
  whether or not the call throws, and the manager holds a freshly launched, running
  browser.
\<close>

theorem createBaseContext_closes_context:
  assumes "ensureDirectory (disk s) contextPath = Inr d"
  shows "fst (createBaseContext a s contextPath) = navigate_and_wait a \<and>
         next_handle s \<notin> open_contexts (snd (createBaseContext a s contextPath)) \<and>
         open_contexts (snd (createBaseContext a s contextPath)) = open_contexts s - {next_handle s} \<and>
         browser (snd (createBaseContext a s contextPath)) = Some (Suc (next_handle s)) \<and>
         Suc (next_handle s) \<in> running (snd (createBaseContext a s contextPath))"
  using assms
  by (auto simp: createBaseContext_def launchPersistentContext_def context_close_def
      launch_def browser_close_def Let_def split: option.splits)

theorem createBaseContext_closes_context_witness:
  "ensureDirectory (disk (initialize (new_manager (Dir [])))) [''ctx''] = Inr (Dir [(''ctx'', Dir [])]) \<and>
   fst (createBaseContext \<lparr>newPage_throws = None, goto_throws = Some PageError,
          waitForTimeout_throws = None, waitForResponse_throws = None\<rparr>
        (initialize (new_manager (Dir []))) [''ctx'']) = Some PageError \<and>
   open_contexts (snd (createBaseContext \<lparr>newPage_throws = None, goto_throws = Some PageError,
          waitForTimeout_throws = None, waitForResponse_throws = None\<rparr>
        (initialize (new_manager (Dir []))) [''ctx''])) = {} \<and>
   browser (snd (createBaseContext \<lparr>newPage_throws = None, goto_throws = Some PageError,
          waitForTimeout_throws = None, waitForResponse_throws = None\<rparr>
        (initialize (new_manager (Dir []))) [''ctx''])) = Some 2"
proof -
  have e: "ensureDirectory (disk (initialize (new_manager (Dir [])))) [''ctx''] = Inr (Dir [(''ctx'', Dir [])])"
    by (simp add: ensureDirectory_def initialize_def launch_def new_manager_def resolve_def fs_access_def)
  have n: "next_handle (initialize (new_manager (Dir []))) = 1"
    "open_contexts (initialize (new_manager (Dir []))) = {}"
    by (simp_all add: initialize_def launch_def new_manager_def)
  show ?thesis
    using createBaseContext_closes_context [OF e, of "\<lparr>newPage_throws = None, goto_throws = Some PageError,
          waitForTimeout_throws = None, waitForResponse_throws = None\<rparr>"] e n
    by (simp add: navigate_and_wait_def numeral_2_eq_2)
qed

end
